theory Spec2Isabelle
  imports Main "HOL-Library.Monad_Syntax"
begin

section \<open>The LLRB tree of llrb.go\<close>

text \<open>
  A shallow embedding of \<^verbatim>\<open>llrb.go\<close>. A \<^verbatim>\<open>*node[T]\<close> is a value of the datatype
  \<open>node\<close>, the nil pointer being \<open>Null\<close>: every node of a tree is allocated by
  \<^verbatim>\<open>newNode\<close> and owned by exactly one parent, so no two pointers alias and the
  in-place updates of the Go code are the construction of an updated value.
  A Go panic (a nil pointer dereference, a call of a nil function value) is the
  result \<open>None\<close>. The selectors \<open>item\<close>, \<open>left\<close>, \<open>right\<close>, \<open>color\<close> are unspecified on
  \<open>Null\<close>; they are applied only where the source has established that the pointer
  is not nil (behind a nil test, a short-circuit \<^verbatim>\<open>&&\<close> after \<^verbatim>\<open>isRed\<close>, or on the
  result of a rotation), and every other dereference is an explicit \<open>None\<close> branch.
  The colours are the booleans of the source: \<^verbatim>\<open>_red = true\<close>, \<^verbatim>\<open>_black = false\<close>.
  \<^verbatim>\<open>zero[T]()\<close> is the parameter \<open>z\<close> of the functions that return it.
  \<^verbatim>\<open>len\<close> is a Go \<^verbatim>\<open>int\<close>; a tree holds one allocated node per counted element, far
  fewer than \<open>2^63\<close>, so the counter is modelled as an unbounded \<open>int\<close>.
\<close>

subsection \<open>Types\<close>

abbreviation red :: bool where "red \<equiv> True"
abbreviation black :: bool where "black \<equiv> False"

type_synonym 'a CompareFunc = "'a \<Rightarrow> 'a \<Rightarrow> int"

text \<open>An \<^verbatim>\<open>IterFunc\<close> is a Go closure: it may read and update captured variables, here
  the state \<open>'s\<close> that it receives and returns together with its boolean result.\<close>

type_synonym ('a, 's) IterFunc = "'a \<Rightarrow> 's \<Rightarrow> bool \<times> 's"

datatype 'a node = Null | Node (item: 'a) (left: "'a node") (right: "'a node") (color: bool)

record 'a LLRBTree =
  root :: "'a node"
  compare :: "'a CompareFunc option"
  len :: int

record 'a nullItem =
  nitem :: 'a
  valid :: bool

declare Option.bind_cong [fundef_cong]

subsection \<open>Calling the comparator\<close>

text \<open>\<^verbatim>\<open>t.compare(a, b)\<close>: calling a nil function value panics.\<close>

fun callCompare :: "'a CompareFunc option \<Rightarrow> 'a \<Rightarrow> 'a \<Rightarrow> int option" where
  "callCompare None a b = None"
| "callCompare (Some f) a b = Some (f a b)"

subsection \<open>Balance primitives\<close>

definition newNode :: "'a \<Rightarrow> 'a node" where
  "newNode x = Node x Null Null red"

fun isRed :: "'a node \<Rightarrow> bool" where
  "isRed Null = False"
| "isRed (Node x l r c) = c"

fun rotateLeft :: "'a node \<Rightarrow> 'a node option" where
  "rotateLeft (Node hx hl (Node xx xl xr xc) hc) = Some (Node xx (Node hx hl xl red) xr hc)"
| "rotateLeft h = None"

fun rotateRight :: "'a node \<Rightarrow> 'a node option" where
  "rotateRight (Node hx (Node xx xl xr xc) hr hc) = Some (Node xx xl (Node hx xr hr red) hc)"
| "rotateRight h = None"

fun colorFlip :: "'a node \<Rightarrow> 'a node option" where
  "colorFlip (Node hx (Node lx ll lr lc) (Node rx rl rr rc) hc) =
     Some (Node hx (Node lx ll lr (\<not> lc)) (Node rx rl rr (\<not> rc)) (\<not> hc))"
| "colorFlip h = None"

fun fixUp :: "'a node \<Rightarrow> 'a node option" where
  "fixUp Null = None"
| "fixUp (Node x l r c) = do {
     h \<leftarrow> (if isRed r \<and> \<not> isRed l then rotateLeft (Node x l r c) else Some (Node x l r c));
     h \<leftarrow> (if isRed (left h) \<and> isRed (left (left h)) then rotateRight h else Some h);
     (if isRed (left h) \<and> isRed (right h) then colorFlip h else Some h)
   }"

text \<open>\<^verbatim>\<open>h.left = l\<close> and \<^verbatim>\<open>h.right = r\<close> on a node that is not nil.\<close>

fun setLeft :: "'a node \<Rightarrow> 'a node \<Rightarrow> 'a node option" where
  "setLeft Null l' = None"
| "setLeft (Node x l r c) l' = Some (Node x l' r c)"

fun setRight :: "'a node \<Rightarrow> 'a node \<Rightarrow> 'a node option" where
  "setRight Null r' = None"
| "setRight (Node x l r c) r' = Some (Node x l r' c)"

fun setItem :: "'a node \<Rightarrow> 'a \<Rightarrow> 'a node option" where
  "setItem Null x' = None"
| "setItem (Node x l r c) x' = Some (Node x' l r c)"

fun setColor :: "'a node \<Rightarrow> bool \<Rightarrow> 'a node option" where
  "setColor Null c' = None"
| "setColor (Node x l r c) c' = Some (Node x l r c')"

definition moveRedLeft :: "'a node \<Rightarrow> 'a node option" where
  "moveRedLeft h0 = do {
     h \<leftarrow> colorFlip h0;
     (if isRed (left (right h)) then do {
        r \<leftarrow> rotateRight (right h);
        h \<leftarrow> setRight h r;
        h \<leftarrow> rotateLeft h;
        colorFlip h
      } else Some h)
   }"

definition moveRedRight :: "'a node \<Rightarrow> 'a node option" where
  "moveRedRight h0 = do {
     h \<leftarrow> colorFlip h0;
     (if isRed (left (left h)) then do {
        h \<leftarrow> rotateRight h;
        colorFlip h
      } else Some h)
   }"

subsection \<open>Insert\<close>

fun insert_node :: "'a CompareFunc option \<Rightarrow> 'a \<Rightarrow> 'a node \<Rightarrow> 'a \<Rightarrow> ('a node \<times> 'a \<times> bool) option" where
  "insert_node cmp z Null x = Some (newNode x, z, False)"
| "insert_node cmp z (Node y l r c) x = do {
     cm \<leftarrow> callCompare cmp x y;
     (h, prev, exist) \<leftarrow>
       (if cm = 0 then Some (Node x l r c, y, True)
        else if cm < 0 then do {
          (l', prev, exist) \<leftarrow> insert_node cmp z l x;
          Some (Node y l' r c, prev, exist)
        } else do {
          (r', prev, exist) \<leftarrow> insert_node cmp z r x;
          Some (Node y l r' c, prev, exist)
        });
     h' \<leftarrow> fixUp h;
     Some (h', prev, exist)
   }"

subsection \<open>Delete family\<close>

text \<open>The rebalancing steps rearrange the nodes of a subtree and keep their number,
  which is what makes the recursions below terminate.\<close>

lemma size_rotateLeft: "rotateLeft h = Some h' \<Longrightarrow> size h' = size h"
  by (induction h rule: rotateLeft.induct) auto

lemma size_rotateRight: "rotateRight h = Some h' \<Longrightarrow> size h' = size h"
  by (induction h rule: rotateRight.induct) auto

lemma size_colorFlip: "colorFlip h = Some h' \<Longrightarrow> size h' = size h"
  by (induction h rule: colorFlip.induct) auto

lemma size_setRight_rotateRight:
  "rotateRight (right h) = Some r \<Longrightarrow> setRight h r = Some h' \<Longrightarrow> size h' = size h"
  by (cases h) (auto dest: size_rotateRight)

lemma size_moveRedLeft: "moveRedLeft h = Some h' \<Longrightarrow> size h' = size h"
  by (auto simp: moveRedLeft_def bind_eq_Some_conv split: if_splits
      dest!: size_colorFlip size_rotateLeft size_setRight_rotateRight)

lemma size_moveRedRight: "moveRedRight h = Some h' \<Longrightarrow> size h' = size h"
  by (auto simp: moveRedRight_def bind_eq_Some_conv split: if_splits
      dest!: size_colorFlip size_rotateRight)

lemma size_left_less: "h \<noteq> Null \<Longrightarrow> size (left h) < size h"
  by (cases h) auto

lemma size_right_less: "h \<noteq> Null \<Longrightarrow> size (right h) < size h"
  by (cases h) auto

lemma size_Node_not_Null: "size h = size (Node x l r c) \<Longrightarrow> h \<noteq> Null"
  by (cases h) auto

function deleteMin :: "'a \<Rightarrow> 'a node \<Rightarrow> ('a node \<times> 'a \<times> bool) option" where
  "deleteMin z Null = Some (Null, z, False)"
| "deleteMin z (Node x l r c) =
     (if l = Null then Some (Null, x, True)
      else do {
        h \<leftarrow> (if \<not> isRed l \<and> \<not> isRed (left l) then moveRedLeft (Node x l r c)
              else Some (Node x l r c));
        (l', deleted, ok) \<leftarrow> deleteMin z (left h);
        h \<leftarrow> setLeft h l';
        h' \<leftarrow> fixUp h;
        Some (h', deleted, ok)
      })"
  by pat_completeness auto

termination
proof (relation "measure (\<lambda>(z, h). size h)", goal_cases)
  case 1
  show ?case by simp
next
  case (2 z x l r c h)
  then have sz: "size h = size (Node x l r c)"
    by (auto split: if_splits dest: size_moveRedLeft)
  then have "h \<noteq> Null" by (rule size_Node_not_Null)
  then have "size (left h) < size h" by (rule size_left_less)
  with sz show ?case by simp
qed

function deleteMax :: "'a \<Rightarrow> 'a node \<Rightarrow> ('a node \<times> 'a \<times> bool) option" where
  "deleteMax z Null = Some (Null, z, False)"
| "deleteMax z (Node x l r c) = do {
     h \<leftarrow> (if isRed l then rotateRight (Node x l r c) else Some (Node x l r c));
     (if right h = Null then Some (Null, item h, True)
      else do {
        h \<leftarrow> (if \<not> isRed (right h) \<and> \<not> isRed (left (right h)) then moveRedRight h
              else Some h);
        (r', deleted, ok) \<leftarrow> deleteMax z (right h);
        h \<leftarrow> setRight h r';
        h' \<leftarrow> fixUp h;
        Some (h', deleted, ok)
      })
   }"
  by pat_completeness auto

termination
proof (relation "measure (\<lambda>(z, h). size h)", goal_cases)
  case 1
  show ?case by simp
next
  case (2 z x l r c h1 h)
  from 2(1) have s1: "size h1 = size (Node x l r c)"
    by (auto split: if_splits dest: size_rotateRight)
  from 2(3) have "size h = size h1"
    by (auto split: if_splits dest: size_moveRedRight)
  with s1 have sz: "size h = size (Node x l r c)" by simp
  then have "h \<noteq> Null" by (rule size_Node_not_Null)
  then have "size (right h) < size h" by (rule size_right_less)
  with sz show ?case by simp
qed

function delete :: "'a CompareFunc option \<Rightarrow> 'a \<Rightarrow> 'a node \<Rightarrow> 'a \<Rightarrow> ('a node \<times> 'a \<times> bool) option" where
  "delete cmp z Null x = Some (Null, z, False)"
| "delete cmp z (Node y l r c) x = do {
     c1 \<leftarrow> callCompare cmp x y;
     (if c1 < 0 then
        (if l = Null then Some (Node y l r c, z, False)
         else do {
           h \<leftarrow> (if \<not> isRed l \<and> \<not> isRed (left l) then moveRedLeft (Node y l r c)
                 else Some (Node y l r c));
           (l', deleted, ok) \<leftarrow> delete cmp z (left h) x;
           h \<leftarrow> setLeft h l';
           h' \<leftarrow> fixUp h;
           Some (h', deleted, ok)
         })
      else do {
        h \<leftarrow> (if isRed l then rotateRight (Node y l r c) else Some (Node y l r c));
        c2 \<leftarrow> callCompare cmp x (item h);
        (if c2 = 0 \<and> right h = Null then Some (Null, item h, True)
         else do {
           h \<leftarrow> (if right h \<noteq> Null \<and> \<not> isRed (right h) \<and> \<not> isRed (left (right h))
                 then moveRedRight h else Some h);
           c3 \<leftarrow> callCompare cmp x (item h);
           (if c3 = 0 then do {
              (r', rightMin, _) \<leftarrow> deleteMin z (right h);
              h1 \<leftarrow> setRight h r';
              h2 \<leftarrow> setItem h1 rightMin;
              h' \<leftarrow> fixUp h2;
              Some (h', item h, True)
            } else do {
              (r', deleted, ok) \<leftarrow> delete cmp z (right h) x;
              h \<leftarrow> setRight h r';
              h' \<leftarrow> fixUp h;
              Some (h', deleted, ok)
            })
         })
      })
   }"
  by pat_completeness auto

termination
proof (relation "measure (\<lambda>(cmp, z, h, x). size h)", goal_cases)
  case 1
  show ?case by simp
next
  case (2 cmp z y l r c x c1 h)
  then have sz: "size h = size (Node y l r c)"
    by (auto split: if_splits dest: size_moveRedLeft)
  then have "h \<noteq> Null" by (rule size_Node_not_Null)
  then have "size (left h) < size h" by (rule size_left_less)
  with sz show ?case by simp
next
  case (3 cmp z y l r c x c1 h1 c2 h c3)
  from 3(3) have s1: "size h1 = size (Node y l r c)"
    by (auto split: if_splits dest: size_rotateRight)
  from 3(6) have "size h = size h1"
    by (auto split: if_splits dest: size_moveRedRight)
  with s1 have sz: "size h = size (Node y l r c)" by simp
  then have "h \<noteq> Null" by (rule size_Node_not_Null)
  then have "size (right h) < size h" by (rule size_right_less)
  with sz show ?case by simp
qed

subsection \<open>Range iterator\<close>

text \<open>The bound tests of \<^verbatim>\<open>iterate\<close>: \<^verbatim>\<open>b.valid && t.compare(h.item, b.item) ... 0\<close>.
  The comparator is called only when the bound is valid.\<close>

definition boundCmp :: "'a CompareFunc option \<Rightarrow> 'a nullItem \<Rightarrow> 'a \<Rightarrow> (int \<Rightarrow> bool) \<Rightarrow> bool option" where
  "boundCmp cmp b x test =
     (if valid b then do { cm \<leftarrow> callCompare cmp x (nitem b); Some (test cm) } else Some False)"

fun iterate :: "'a CompareFunc option \<Rightarrow> 'a node \<Rightarrow> bool \<Rightarrow> 'a nullItem \<Rightarrow> 'a nullItem \<Rightarrow>
    ('a, 's) IterFunc \<Rightarrow> 's \<Rightarrow> (bool \<times> 's) option" where
  "iterate cmp Null desc start en iter s = Some (True, s)"
| "iterate cmp (Node x l r c) desc start en iter s =
     (if \<not> desc then do {
        pastEnd \<leftarrow> boundCmp cmp en x (\<lambda>cm. cm \<ge> 0);
        (if pastEnd then iterate cmp l desc start en iter s
         else do {
           beforeStart \<leftarrow> boundCmp cmp start x (\<lambda>cm. cm < 0);
           (if beforeStart then iterate cmp r desc start en iter s
            else do {
              (go, s) \<leftarrow> iterate cmp l desc start en iter s;
              (if \<not> go then Some (False, s)
               else case iter x s of (go, s) \<Rightarrow>
                 (if \<not> go then Some (False, s)
                  else iterate cmp r desc start en iter s))
            })
         })
      } else do {
        pastEnd \<leftarrow> boundCmp cmp en x (\<lambda>cm. cm \<le> 0);
        (if pastEnd then iterate cmp r desc start en iter s
         else do {
           beforeStart \<leftarrow> boundCmp cmp start x (\<lambda>cm. cm > 0);
           (if beforeStart then iterate cmp l desc start en iter s
            else do {
              (go, s) \<leftarrow> iterate cmp r desc start en iter s;
              (if \<not> go then Some (False, s)
               else case iter x s of (go, s) \<Rightarrow>
                 (if \<not> go then Some (False, s)
                  else iterate cmp l desc start en iter s))
            })
         })
      })"

subsection \<open>Public operations\<close>

definition NewLLRBTree :: "'a CompareFunc option \<Rightarrow> 'a LLRBTree" where
  "NewLLRBTree cmp = \<lparr>root = Null, compare = cmp, len = 0\<rparr>"

definition ReplaceOrInsert :: "'a \<Rightarrow> 'a LLRBTree \<Rightarrow> 'a \<Rightarrow> ('a LLRBTree \<times> 'a \<times> bool) option" where
  "ReplaceOrInsert z t x = do {
     (h, prev, exist) \<leftarrow> insert_node (compare t) z (root t) x;
     h \<leftarrow> setColor h black;
     Some (t\<lparr>root := h, len := (if \<not> exist then len t + 1 else len t)\<rparr>, prev, exist)
   }"

text \<open>The loop of \<^verbatim>\<open>Get\<close>, as a recursion on the node \<^verbatim>\<open>x\<close> it walks down from.\<close>

fun Get_loop :: "'a CompareFunc option \<Rightarrow> 'a \<Rightarrow> 'a node \<Rightarrow> 'a \<Rightarrow> ('a \<times> bool) option" where
  "Get_loop cmp z Null x = Some (z, False)"
| "Get_loop cmp z (Node y l r c) x = do {
     cm \<leftarrow> callCompare cmp x y;
     (if cm = 0 then Some (y, True)
      else if cm < 0 then Get_loop cmp z l x
      else Get_loop cmp z r x)
   }"

definition Get :: "'a \<Rightarrow> 'a LLRBTree \<Rightarrow> 'a \<Rightarrow> ('a \<times> bool) option" where
  "Get z t x = Get_loop (compare t) z (root t) x"

definition Has :: "'a \<Rightarrow> 'a LLRBTree \<Rightarrow> 'a \<Rightarrow> bool option" where
  "Has z t x = do { (_, ok) \<leftarrow> Get z t x; Some ok }"

text \<open>\<^verbatim>\<open>if t.root != nil { t.root.color = _black }\<close>\<close>

fun blackenRoot :: "'a node \<Rightarrow> 'a node" where
  "blackenRoot Null = Null"
| "blackenRoot (Node x l r c) = Node x l r black"

definition DeleteMin :: "'a \<Rightarrow> 'a LLRBTree \<Rightarrow> ('a LLRBTree \<times> 'a \<times> bool) option" where
  "DeleteMin z t = do {
     (h, deleted, ok) \<leftarrow> deleteMin z (root t);
     Some (t\<lparr>root := blackenRoot h, len := (if ok then len t - 1 else len t)\<rparr>, deleted, ok)
   }"

definition DeleteMax :: "'a \<Rightarrow> 'a LLRBTree \<Rightarrow> ('a LLRBTree \<times> 'a \<times> bool) option" where
  "DeleteMax z t = do {
     (h, deleted, ok) \<leftarrow> deleteMax z (root t);
     Some (t\<lparr>root := blackenRoot h, len := (if ok then len t - 1 else len t)\<rparr>, deleted, ok)
   }"

definition Delete :: "'a \<Rightarrow> 'a LLRBTree \<Rightarrow> 'a \<Rightarrow> ('a LLRBTree \<times> 'a \<times> bool) option" where
  "Delete z t x = do {
     (h, deleted, ok) \<leftarrow> delete (compare t) z (root t) x;
     Some (t\<lparr>root := blackenRoot h, len := (if ok then len t - 1 else len t)\<rparr>, deleted, ok)
   }"

definition Clear :: "'a LLRBTree \<Rightarrow> 'a LLRBTree" where
  "Clear t = t\<lparr>root := Null, len := 0\<rparr>"

definition Len :: "'a LLRBTree \<Rightarrow> int" where
  "Len t = len t"

text \<open>The traversals discard the boolean of \<^verbatim>\<open>iterate\<close>; what the caller observes is
  what the closure did, the final state.\<close>

definition AscendRange :: "'a LLRBTree \<Rightarrow> 'a \<Rightarrow> 'a \<Rightarrow> ('a, 's) IterFunc \<Rightarrow> 's \<Rightarrow> 's option" where
  "AscendRange t greaterOrEqual lessThan' iter s =
     map_option snd (iterate (compare t) (root t) False
       \<lparr>nitem = greaterOrEqual, valid = True\<rparr> \<lparr>nitem = lessThan', valid = True\<rparr> iter s)"

definition AscendLessThan :: "'a \<Rightarrow> 'a LLRBTree \<Rightarrow> 'a \<Rightarrow> ('a, 's) IterFunc \<Rightarrow> 's \<Rightarrow> 's option" where
  "AscendLessThan z t pivot iter s =
     map_option snd (iterate (compare t) (root t) False
       \<lparr>nitem = z, valid = False\<rparr> \<lparr>nitem = pivot, valid = True\<rparr> iter s)"

definition AscendGreaterOrEqual :: "'a \<Rightarrow> 'a LLRBTree \<Rightarrow> 'a \<Rightarrow> ('a, 's) IterFunc \<Rightarrow> 's \<Rightarrow> 's option" where
  "AscendGreaterOrEqual z t pivot iter s =
     map_option snd (iterate (compare t) (root t) False
       \<lparr>nitem = pivot, valid = True\<rparr> \<lparr>nitem = z, valid = False\<rparr> iter s)"

definition Ascend :: "'a \<Rightarrow> 'a LLRBTree \<Rightarrow> ('a, 's) IterFunc \<Rightarrow> 's \<Rightarrow> 's option" where
  "Ascend z t iter s =
     map_option snd (iterate (compare t) (root t) False
       \<lparr>nitem = z, valid = False\<rparr> \<lparr>nitem = z, valid = False\<rparr> iter s)"

definition DescendRange :: "'a LLRBTree \<Rightarrow> 'a \<Rightarrow> 'a \<Rightarrow> ('a, 's) IterFunc \<Rightarrow> 's \<Rightarrow> 's option" where
  "DescendRange t lessOrEqual greaterThan' iter s =
     map_option snd (iterate (compare t) (root t) True
       \<lparr>nitem = lessOrEqual, valid = True\<rparr> \<lparr>nitem = greaterThan', valid = True\<rparr> iter s)"

definition DescendLessOrEqual :: "'a \<Rightarrow> 'a LLRBTree \<Rightarrow> 'a \<Rightarrow> ('a, 's) IterFunc \<Rightarrow> 's \<Rightarrow> 's option" where
  "DescendLessOrEqual z t pivot iter s =
     map_option snd (iterate (compare t) (root t) True
       \<lparr>nitem = pivot, valid = True\<rparr> \<lparr>nitem = z, valid = False\<rparr> iter s)"

definition DescendGreaterThan :: "'a \<Rightarrow> 'a LLRBTree \<Rightarrow> 'a \<Rightarrow> ('a, 's) IterFunc \<Rightarrow> 's \<Rightarrow> 's option" where
  "DescendGreaterThan z t pivot iter s =
     map_option snd (iterate (compare t) (root t) True
       \<lparr>nitem = z, valid = False\<rparr> \<lparr>nitem = pivot, valid = True\<rparr> iter s)"

definition Descend :: "'a \<Rightarrow> 'a LLRBTree \<Rightarrow> ('a, 's) IterFunc \<Rightarrow> 's \<Rightarrow> 's option" where
  "Descend z t iter s =
     map_option snd (iterate (compare t) (root t) True
       \<lparr>nitem = z, valid = False\<rparr> \<lparr>nitem = z, valid = False\<rparr> iter s)"


section \<open>Specification vocabulary\<close>

text \<open>The elements of a tree from left to right.\<close>

fun inorder :: "'a node \<Rightarrow> 'a list" where
  "inorder Null = []"
| "inorder (Node x l r c) = inorder l @ x # inorder r"

definition total_order :: "'a CompareFunc \<Rightarrow> bool" where
  "total_order cmp \<longleftrightarrow>
     (\<forall>a b. (cmp a b < 0) = (0 < cmp b a)) \<and>
     (\<forall>a b c. cmp a b \<le> 0 \<longrightarrow> cmp b c \<le> 0 \<longrightarrow> cmp a c \<le> 0)"

definition ordered :: "'a CompareFunc \<Rightarrow> 'a node \<Rightarrow> bool" where
  "ordered cmp t = sorted_wrt (\<lambda>a b. cmp a b < 0) (inorder t)"

fun ins_list :: "'a CompareFunc \<Rightarrow> 'a \<Rightarrow> 'a list \<Rightarrow> 'a list" where
  "ins_list cmp x [] = [x]"
| "ins_list cmp x (y # ys) =
     (if cmp x y = 0 then x # ys else if cmp x y < 0 then x # y # ys else y # ins_list cmp x ys)"

fun del_list :: "'a CompareFunc \<Rightarrow> 'a \<Rightarrow> 'a list \<Rightarrow> 'a list" where
  "del_list cmp x [] = []"
| "del_list cmp x (y # ys) = (if cmp x y = 0 then ys else y # del_list cmp x ys)"

fun find_list :: "'a CompareFunc \<Rightarrow> 'a \<Rightarrow> 'a \<Rightarrow> 'a list \<Rightarrow> 'a \<times> bool" where
  "find_list cmp z x [] = (z, False)"
| "find_list cmp z x (y # ys) = (if cmp x y = 0 then (y, True) else find_list cmp z x ys)"

text \<open>\<^verbatim>\<open>cmp.Compare\<close> of the Go standard library at type \<^verbatim>\<open>int\<close>, the comparator that
  \<^verbatim>\<open>NewSet[int]\<close> passes to \<^verbatim>\<open>NewLLRBTree\<close>, and a small tree built with it.\<close>

definition int_compare :: "int CompareFunc" where
  "int_compare a b = (if a < b then -1 else if a = b then 0 else 1)"

definition tree_12 :: "int LLRBTree" where
  "tree_12 = \<lparr>root = Node 2 (Node 1 Null Null red) Null black, compare = Some int_compare, len = 2\<rparr>"


text \<open>The tree that \<^verbatim>\<open>ReplaceOrInsert\<close> builds from 2, 1, 4, 3 with \<^verbatim>\<open>cmp.Compare\<close>.\<close>

definition tree_2143 :: "int LLRBTree" where
  "tree_2143 = \<lparr>root = Node 2 (Node 1 Null Null black) (Node 4 (Node 3 Null Null red) Null black) black,
     compare = Some int_compare, len = 4\<rparr>"

text \<open>
  Running a predicate over a sequence of elements until it returns false: the final
  result and state (\<open>run\<close>) and the calls made, each with its result (\<open>trace\<close>).
  \<open>logging\<close> wraps a predicate so that it records every call in its own state, and
  \<open>visit\<close> is the order in which \<^verbatim>\<open>iterate\<close> reaches the nodes it does not prune.
\<close>

fun run :: "('a, 's) IterFunc \<Rightarrow> 'a list \<Rightarrow> 's \<Rightarrow> bool \<times> 's" where
  "run iter [] s = (True, s)"
| "run iter (x # xs) s = (case iter x s of (go, s') \<Rightarrow> if go then run iter xs s' else (False, s'))"

fun trace :: "('a, 's) IterFunc \<Rightarrow> 'a list \<Rightarrow> 's \<Rightarrow> ('a \<times> bool) list" where
  "trace iter [] s = []"
| "trace iter (x # xs) s =
     (case iter x s of (go, s') \<Rightarrow> (x, go) # (if go then trace iter xs s' else []))"

definition logging :: "('a, 's) IterFunc \<Rightarrow> ('a, 's \<times> ('a \<times> bool) list) IterFunc" where
  "logging iter x = (\<lambda>(s, log). case iter x s of (go, s') \<Rightarrow> (go, (s', log @ [(x, go)])))"

fun visit :: "'a CompareFunc \<Rightarrow> 'a node \<Rightarrow> bool \<Rightarrow> 'a nullItem \<Rightarrow> 'a nullItem \<Rightarrow> 'a list" where
  "visit cmp Null desc start en = []"
| "visit cmp (Node x l r c) desc start en =
     (if \<not> desc then
        (if valid en \<and> cmp x (nitem en) \<ge> 0 then visit cmp l desc start en
         else if valid start \<and> cmp x (nitem start) < 0 then visit cmp r desc start en
         else visit cmp l desc start en @ x # visit cmp r desc start en)
      else
        (if valid en \<and> cmp x (nitem en) \<le> 0 then visit cmp r desc start en
         else if valid start \<and> cmp x (nitem start) > 0 then visit cmp l desc start en
         else visit cmp r desc start en @ x # visit cmp l desc start en))"

text \<open>
  The structural invariants. \<open>bh\<close> counts the black nodes on the leftmost path, and a
  tree is \<open>balanced\<close> when every path from a node to a nil link passes the same number
  of black nodes. \<open>llrb\<close>: no right link is red and no red node has a red left child.
  \<open>dshape\<close> is the form of the subtrees that the delete family recurses into: a red
  node with black children, or a black node with exactly one red child; \<open>keyok\<close> says
  that the key is not below a node whose red child is the right one.
\<close>

fun bh :: "'a node \<Rightarrow> nat" where
  "bh Null = 0"
| "bh (Node x l r c) = (if c then bh l else Suc (bh l))"

fun balanced :: "'a node \<Rightarrow> bool" where
  "balanced Null = True"
| "balanced (Node x l r c) = (bh l = bh r \<and> balanced l \<and> balanced r)"

fun llrb :: "'a node \<Rightarrow> bool" where
  "llrb Null = True"
| "llrb (Node x l r c) = (\<not> isRed r \<and> (c \<longrightarrow> \<not> isRed l) \<and> llrb l \<and> llrb r)"

fun dshape :: "'a node \<Rightarrow> bool" where
  "dshape Null = True"
| "dshape (Node x l r c) =
     (llrb l \<and> llrb r \<and> (if c then \<not> isRed l \<and> \<not> isRed r else isRed l \<noteq> isRed r))"

fun keyok :: "'a CompareFunc \<Rightarrow> 'a \<Rightarrow> 'a node \<Rightarrow> bool" where
  "keyok cmp k Null = True"
| "keyok cmp k (Node y l r c) = (isRed r \<longrightarrow> 0 \<le> cmp k y)"

text \<open>
  \<open>flipRoot\<close> inverts the colour of the root: the rebalancing steps never test the
  colour of the node they are applied to, so they commute with it. \<open>count\<close> is the
  number of nodes reachable from a node, and \<open>tree_inv\<close> collects the invariants of
  a tree: a total-order comparator, elements in strictly increasing order, the
  LLRB shape with a black root, and a length equal to the number of nodes.
\<close>

fun flipRoot :: "'a node \<Rightarrow> 'a node" where
  "flipRoot Null = Null"
| "flipRoot (Node x l r c) = Node x l r (\<not> c)"

fun count :: "'a node \<Rightarrow> nat" where
  "count Null = 0"
| "count (Node x l r c) = Suc (count l + count r)"

definition tree_inv :: "'a CompareFunc \<Rightarrow> 'a LLRBTree \<Rightarrow> bool" where
  "tree_inv cmp t \<longleftrightarrow>
     compare t = Some cmp \<and> total_order cmp \<and> ordered cmp (root t) \<and>
     llrb (root t) \<and> balanced (root t) \<and> \<not> isRed (root t) \<and>
     len t = int (count (root t))"

text \<open>
  The invariants as the specification words them. \<open>red_right_free\<close>: no red node has a
  red right child. \<open>red_left_chain_free\<close>: no red node has a red left child whose left
  child is red too. \<open>blackDepths\<close> is the set of the numbers of black nodes on the paths
  from a node to its nil links. \<open>bst\<close>: every element of a left subtree compares less
  than the node's item and every element of a right subtree greater.
  A \<open>mutation\<close> is one call of a public mutating operation; \<open>apply_mutations\<close> runs a
  sequence of them and is \<open>None\<close> when one of them panics.
\<close>

fun red_right_free :: "'a node \<Rightarrow> bool" where
  "red_right_free Null = True"
| "red_right_free (Node x l r c) = ((c \<longrightarrow> \<not> isRed r) \<and> red_right_free l \<and> red_right_free r)"

fun red_left_chain_free :: "'a node \<Rightarrow> bool" where
  "red_left_chain_free Null = True"
| "red_left_chain_free (Node x l r c) =
     ((c \<and> isRed l \<longrightarrow> \<not> isRed (left l)) \<and> red_left_chain_free l \<and> red_left_chain_free r)"

fun blackDepths :: "'a node \<Rightarrow> nat set" where
  "blackDepths Null = {0}"
| "blackDepths (Node x l r c) =
     (\<lambda>d. if c then d else Suc d) ` (blackDepths l \<union> blackDepths r)"

definition llrb_invariants :: "'a node \<Rightarrow> bool" where
  "llrb_invariants h \<longleftrightarrow>
     red_right_free h \<and> red_left_chain_free h \<and> (\<exists>d. blackDepths h = {d}) \<and> \<not> isRed h"

fun bst :: "'a CompareFunc \<Rightarrow> 'a node \<Rightarrow> bool" where
  "bst cmp Null = True"
| "bst cmp (Node x l r c) =
     ((\<forall>a\<in>set (inorder l). cmp a x < 0) \<and> (\<forall>b\<in>set (inorder r). 0 < cmp b x) \<and>
      bst cmp l \<and> bst cmp r)"

datatype 'a mutation = DoReplaceOrInsert 'a | DoDelete 'a | DoDeleteMin | DoDeleteMax | DoClear

fun apply_mutation :: "'a \<Rightarrow> 'a LLRBTree \<Rightarrow> 'a mutation \<Rightarrow> 'a LLRBTree option" where
  "apply_mutation z t (DoReplaceOrInsert x) = map_option fst (ReplaceOrInsert z t x)"
| "apply_mutation z t (DoDelete x) = map_option fst (Delete z t x)"
| "apply_mutation z t DoDeleteMin = map_option fst (DeleteMin z t)"
| "apply_mutation z t DoDeleteMax = map_option fst (DeleteMax z t)"
| "apply_mutation z t DoClear = Some (Clear t)"

fun apply_mutations :: "'a \<Rightarrow> 'a LLRBTree \<Rightarrow> 'a mutation list \<Rightarrow> 'a LLRBTree option" where
  "apply_mutations z t [] = Some t"
| "apply_mutations z t (m # ms) = apply_mutation z t m \<bind> (\<lambda>t'. apply_mutations z t' ms)"

section \<open>Comparator and list facts\<close>

lemma cmp_flip: "total_order cmp \<Longrightarrow> (cmp a b < 0) = (0 < cmp b a)"
  by (simp add: total_order_def)

lemma cmp_le_flip: "total_order cmp \<Longrightarrow> (cmp a b \<le> 0) = (0 \<le> cmp b a)"
proof -
  assume t: "total_order cmp"
  have "(cmp a b \<le> 0) = (\<not> 0 < cmp a b)" by auto
  also have "\<dots> = (\<not> cmp b a < 0)" using cmp_flip[OF t, of b a] by simp
  also have "\<dots> = (0 \<le> cmp b a)" by auto
  finally show ?thesis .
qed

lemma cmp_le_trans: "total_order cmp \<Longrightarrow> cmp a b \<le> 0 \<Longrightarrow> cmp b c \<le> 0 \<Longrightarrow> cmp a c \<le> 0"
  unfolding total_order_def by blast

lemma cmp_lt_le_trans:
  assumes t: "total_order cmp" and ab: "cmp a b < 0" and bc: "cmp b c \<le> 0"
  shows "cmp a c < 0"
proof (rule ccontr)
  assume "\<not> cmp a c < 0"
  then have "cmp c a \<le> 0" using cmp_le_flip[OF t, of c a] by simp
  with bc have "cmp b a \<le> 0" by (rule cmp_le_trans[OF t])
  then have "\<not> cmp a b < 0" using cmp_flip[OF t, of a b] by simp
  with ab show False by simp
qed

lemma cmp_le_lt_trans:
  assumes t: "total_order cmp" and ab: "cmp a b \<le> 0" and bc: "cmp b c < 0"
  shows "cmp a c < 0"
proof (rule ccontr)
  assume "\<not> cmp a c < 0"
  then have "cmp c a \<le> 0" using cmp_le_flip[OF t, of c a] by simp
  then have "cmp c b \<le> 0" using ab by (rule cmp_le_trans[OF t])
  then have "\<not> cmp b c < 0" using cmp_flip[OF t, of b c] by simp
  with bc show False by simp
qed

lemma cmp_refl: "total_order cmp \<Longrightarrow> cmp a a = 0"
  using cmp_flip[of cmp a a] by auto

lemma cmp_eq_sym: "total_order cmp \<Longrightarrow> (cmp a b = 0) = (cmp b a = 0)"
  using cmp_flip[of cmp a b] cmp_flip[of cmp b a] by auto

text \<open>The search key \<open>x\<close> against an element on the far side of a pivot \<open>y\<close>.\<close>

lemma cmp_above: "total_order cmp \<Longrightarrow> cmp a y < 0 \<Longrightarrow> 0 \<le> cmp x y \<Longrightarrow> 0 < cmp x a"
proof -
  assume t: "total_order cmp" and ay: "cmp a y < 0" and xy: "0 \<le> cmp x y"
  from xy have "cmp y x \<le> 0" using cmp_le_flip[OF t, of y x] by simp
  with ay have "cmp a x < 0" by (rule cmp_lt_le_trans[OF t])
  then show ?thesis using cmp_flip[OF t, of a x] by simp
qed

lemma cmp_below: "total_order cmp \<Longrightarrow> cmp y b < 0 \<Longrightarrow> cmp x y \<le> 0 \<Longrightarrow> cmp x b < 0"
  by (rule cmp_le_lt_trans)

lemma ins_list_left:
  "cmp x y < 0 \<Longrightarrow> ins_list cmp x (xs @ y # ys) = ins_list cmp x xs @ y # ys"
  by (induction xs) auto

lemma ins_list_right:
  "total_order cmp \<Longrightarrow> \<forall>a\<in>set xs. cmp a y < 0 \<Longrightarrow> 0 < cmp x y \<Longrightarrow>
   ins_list cmp x (xs @ y # ys) = xs @ y # ins_list cmp x ys"
  by (induction xs) (auto dest: cmp_above[where x = x])

lemma ins_list_here:
  "total_order cmp \<Longrightarrow> \<forall>a\<in>set xs. cmp a y < 0 \<Longrightarrow> cmp x y = 0 \<Longrightarrow>
   ins_list cmp x (xs @ y # ys) = xs @ x # ys"
  by (induction xs) (auto dest: cmp_above[where x = x])

lemma find_list_notin:
  "total_order cmp \<Longrightarrow> \<forall>b\<in>set ys. cmp y b < 0 \<Longrightarrow> cmp x y \<le> 0 \<Longrightarrow>
   find_list cmp z x ys = (z, False)"
  by (induction ys) (auto dest: cmp_below[where x = x])

lemma find_list_left:
  "total_order cmp \<Longrightarrow> \<forall>b\<in>set ys. cmp y b < 0 \<Longrightarrow> cmp x y < 0 \<Longrightarrow>
   find_list cmp z x (xs @ y # ys) = find_list cmp z x xs"
  by (induction xs) (auto simp: find_list_notin)

lemma find_list_right:
  "total_order cmp \<Longrightarrow> \<forall>a\<in>set xs. cmp a y < 0 \<Longrightarrow> 0 < cmp x y \<Longrightarrow>
   find_list cmp z x (xs @ y # ys) = find_list cmp z x ys"
  by (induction xs) (auto dest: cmp_above[where x = x])

lemma find_list_here:
  "total_order cmp \<Longrightarrow> \<forall>a\<in>set xs. cmp a y < 0 \<Longrightarrow> cmp x y = 0 \<Longrightarrow>
   find_list cmp z x (xs @ y # ys) = (y, True)"
  by (induction xs) (auto dest: cmp_above[where x = x])

lemma del_list_notin:
  "total_order cmp \<Longrightarrow> \<forall>b\<in>set ys. cmp y b < 0 \<Longrightarrow> cmp x y \<le> 0 \<Longrightarrow>
   del_list cmp x ys = ys"
  by (induction ys) (auto dest: cmp_below[where x = x])

lemma del_list_left:
  "total_order cmp \<Longrightarrow> \<forall>b\<in>set ys. cmp y b < 0 \<Longrightarrow> cmp x y < 0 \<Longrightarrow>
   del_list cmp x (xs @ y # ys) = del_list cmp x xs @ y # ys"
  by (induction xs) (auto simp: del_list_notin)

lemma del_list_right:
  "total_order cmp \<Longrightarrow> \<forall>a\<in>set xs. cmp a y < 0 \<Longrightarrow> 0 < cmp x y \<Longrightarrow>
   del_list cmp x (xs @ y # ys) = xs @ y # del_list cmp x ys"
  by (induction xs) (auto dest: cmp_above[where x = x])

lemma del_list_here:
  "total_order cmp \<Longrightarrow> \<forall>a\<in>set xs. cmp a y < 0 \<Longrightarrow> cmp x y = 0 \<Longrightarrow>
   del_list cmp x (xs @ y # ys) = xs @ ys"
  by (induction xs) (auto dest: cmp_above[where x = x])

lemma inorder_rotateLeft: "rotateLeft h = Some h' \<Longrightarrow> inorder h' = inorder h"
  by (induction h rule: rotateLeft.induct) auto

lemma inorder_rotateRight: "rotateRight h = Some h' \<Longrightarrow> inorder h' = inorder h"
  by (induction h rule: rotateRight.induct) auto

lemma inorder_colorFlip: "colorFlip h = Some h' \<Longrightarrow> inorder h' = inorder h"
  by (induction h rule: colorFlip.induct) auto

lemma fixUp_steps:
  assumes "fixUp h = Some h'"
  shows "\<exists>h1 h2. (h1 = h \<or> rotateLeft h = Some h1) \<and> (h2 = h1 \<or> rotateRight h1 = Some h2) \<and>
           (h' = h2 \<or> colorFlip h2 = Some h')"
proof (cases h)
  case Null
  with assms show ?thesis by simp
next
  case (Node x l r c)
  from assms Node obtain h1 h2 where
    1: "(if isRed r \<and> \<not> isRed l then rotateLeft h else Some h) = Some h1" and
    2: "(if isRed (left h1) \<and> isRed (left (left h1)) then rotateRight h1 else Some h1) = Some h2" and
    3: "(if isRed (left h2) \<and> isRed (right h2) then colorFlip h2 else Some h2) = Some h'"
    by (auto simp: bind_eq_Some_conv)
  from 1 have "h1 = h \<or> rotateLeft h = Some h1" by (auto split: if_splits)
  moreover from 2 have "h2 = h1 \<or> rotateRight h1 = Some h2" by (auto split: if_splits)
  moreover from 3 have "h' = h2 \<or> colorFlip h2 = Some h'" by (auto split: if_splits)
  ultimately show ?thesis by blast
qed

lemma inorder_fixUp: "fixUp h = Some h' \<Longrightarrow> inorder h' = inorder h"
  by (drule fixUp_steps) (metis inorder_rotateLeft inorder_rotateRight inorder_colorFlip)

lemma rotateLeft_Some: "isRed (right h) \<Longrightarrow> h \<noteq> Null \<Longrightarrow> \<exists>h'. rotateLeft h = Some h' \<and> h' \<noteq> Null"
  by (induction h rule: rotateLeft.induct) auto

lemma rotateRight_Some: "isRed (left h) \<Longrightarrow> h \<noteq> Null \<Longrightarrow> \<exists>h'. rotateRight h = Some h' \<and> h' \<noteq> Null"
  by (induction h rule: rotateRight.induct) auto

lemma colorFlip_Some:
  "isRed (left h) \<Longrightarrow> isRed (right h) \<Longrightarrow> h \<noteq> Null \<Longrightarrow> \<exists>h'. colorFlip h = Some h' \<and> h' \<noteq> Null"
  by (induction h rule: colorFlip.induct) auto

lemma fixUp_Some: "h \<noteq> Null \<Longrightarrow> \<exists>h'. fixUp h = Some h' \<and> h' \<noteq> Null"
proof (cases h)
  case Null
  then show "h \<noteq> Null \<Longrightarrow> ?thesis" by simp
next
  case (Node x l r c)
  obtain h1 where h1: "(if isRed r \<and> \<not> isRed l then rotateLeft h else Some h) = Some h1" "h1 \<noteq> Null"
    using rotateLeft_Some[of h] Node by (cases "isRed r \<and> \<not> isRed l") auto
  obtain h2 where h2: "(if isRed (left h1) \<and> isRed (left (left h1)) then rotateRight h1 else Some h1) = Some h2" "h2 \<noteq> Null"
    using rotateRight_Some[of h1] h1(2) by (cases "isRed (left h1) \<and> isRed (left (left h1))") auto
  obtain h3 where h3: "(if isRed (left h2) \<and> isRed (right h2) then colorFlip h2 else Some h2) = Some h3" "h3 \<noteq> Null"
    using colorFlip_Some[of h2] h2(2) by (cases "isRed (left h2) \<and> isRed (right h2)") auto
  show ?thesis using h1 h2 h3 Node by auto
qed

declare fixUp.simps [simp del]

lemma sorted_wrt_mid:
  "sorted_wrt P (xs @ y # ys) \<Longrightarrow> (\<forall>a\<in>set xs. P a y) \<and> (\<forall>b\<in>set ys. P y b) \<and> sorted_wrt P xs \<and> sorted_wrt P ys"
  by (auto simp: sorted_wrt_append)

lemma insert_node_correct:
  assumes t: "total_order cmp"
  shows "ordered cmp h \<Longrightarrow>
    \<exists>h'. insert_node (Some cmp) z h x = Some (h', find_list cmp z x (inorder h)) \<and>
         inorder h' = ins_list cmp x (inorder h) \<and> h' \<noteq> Null"
proof (induction h)
  case Null
  then show ?case by (simp add: newNode_def)
next
  case (Node y l r c)
  from Node.prems have ord: "\<forall>a\<in>set (inorder l). cmp a y < 0" "\<forall>b\<in>set (inorder r). cmp y b < 0"
    "ordered cmp l" "ordered cmp r"
    by (auto simp: ordered_def dest: sorted_wrt_mid)
  consider (eq) "cmp x y = 0" | (lt) "cmp x y < 0" | (gt) "0 < cmp x y" by linarith
  then show ?case
  proof cases
    case eq
    obtain h' where "fixUp (Node x l r c) = Some h'" "h' \<noteq> Null"
      using fixUp_Some[of "Node x l r c"] by auto
    then show ?thesis using eq ord t
      by (auto simp: ins_list_here find_list_here dest: inorder_fixUp)
  next
    case lt
    from Node.IH(1)[OF ord(3)] obtain l' where
      l': "insert_node (Some cmp) z l x = Some (l', find_list cmp z x (inorder l))"
        "inorder l' = ins_list cmp x (inorder l)" by auto
    obtain h' where "fixUp (Node y l' r c) = Some h'" "h' \<noteq> Null"
      using fixUp_Some[of "Node y l' r c"] by auto
    then show ?thesis using lt ord t l'
      by (auto simp: ins_list_left find_list_left dest: inorder_fixUp)
  next
    case gt
    from Node.IH(2)[OF ord(4)] obtain r' where
      r': "insert_node (Some cmp) z r x = Some (r', find_list cmp z x (inorder r))"
        "inorder r' = ins_list cmp x (inorder r)" by auto
    obtain h' where "fixUp (Node y l r' c) = Some h'" "h' \<noteq> Null"
      using fixUp_Some[of "Node y l r' c"] by auto
    then show ?thesis using gt ord t r'
      by (auto simp: ins_list_right find_list_right dest: inorder_fixUp)
  qed
qed


lemma total_order_int_compare: "total_order int_compare"
  by (auto simp: total_order_def int_compare_def)

lemma ins_list_replace:
  "total_order cmp \<Longrightarrow> sorted_wrt (\<lambda>a b. cmp a b < 0) xs \<Longrightarrow> \<exists>e\<in>set xs. cmp x e = 0 \<Longrightarrow>
   ins_list cmp x xs = map (\<lambda>y. if cmp x y = 0 then x else y) xs"
proof (induction xs)
  case Nil
  then show ?case by simp
next
  case (Cons y ys)
  have below: "cmp x y \<le> 0 \<Longrightarrow> \<forall>b\<in>set ys. cmp x b < 0"
    using Cons.prems(1,2) by (auto intro: cmp_below)
  consider (eq) "cmp x y = 0" | (lt) "cmp x y < 0" | (gt) "0 < cmp x y" by linarith
  then show ?case
  proof cases
    case eq
    with below have "map (\<lambda>y. if cmp x y = 0 then x else y) ys = ys"
      by (intro map_idI) auto
    with eq show ?thesis by simp
  next
    case lt
    with below Cons.prems(3) show ?thesis by auto
  next
    case gt
    with Cons show ?thesis by auto
  qed
qed

lemma ins_list_new:
  "\<forall>e\<in>set xs. cmp x e \<noteq> 0 \<Longrightarrow> \<exists>as bs. xs = as @ bs \<and> ins_list cmp x xs = as @ x # bs"
proof (induction xs)
  case Nil
  then show ?case by simp
next
  case (Cons y ys)
  show ?case
  proof (cases "cmp x y < 0")
    case True
    with Cons.prems have "y # ys = [] @ (y # ys) \<and> ins_list cmp x (y # ys) = [] @ x # (y # ys)"
      by simp
    then show ?thesis by blast
  next
    case False
    from Cons obtain as bs where "ys = as @ bs" "ins_list cmp x ys = as @ x # bs" by auto
    with False Cons.prems
    have "y # ys = (y # as) @ bs \<and> ins_list cmp x (y # ys) = (y # as) @ x # bs" by simp
    then show ?thesis by blast
  qed
qed

lemma find_list_found:
  "\<exists>e\<in>set xs. cmp x e = 0 \<Longrightarrow>
   \<exists>e. find_list cmp z x xs = (e, True) \<and> e \<in> set xs \<and> cmp x e = 0"
  by (induction xs) auto

lemma find_list_absent: "\<forall>e\<in>set xs. cmp x e \<noteq> 0 \<Longrightarrow> find_list cmp z x xs = (z, False)"
  by (induction xs) auto

lemma set_ins_list_subset: "set (ins_list cmp x xs) \<subseteq> insert x (set xs)"
  by (induction xs) auto

lemma sorted_ins_list:
  "total_order cmp \<Longrightarrow> sorted_wrt (\<lambda>a b. cmp a b < 0) xs \<Longrightarrow>
   sorted_wrt (\<lambda>a b. cmp a b < 0) (ins_list cmp x xs)"
proof (induction xs)
  case Nil
  then show ?case by simp
next
  case (Cons y ys)
  have below: "cmp x y \<le> 0 \<Longrightarrow> \<forall>b\<in>set ys. cmp x b < 0"
    using Cons.prems(1,2) by (auto intro: cmp_below)
  have "0 < cmp x y \<Longrightarrow> \<forall>b\<in>set (ins_list cmp x ys). cmp y b < 0"
    using Cons.prems set_ins_list_subset[of cmp x ys] by (auto simp: cmp_flip)
  with below Cons show ?case by auto
qed

lemma tree_2143_built:
  "do { (t, _, _) \<leftarrow> ReplaceOrInsert 0 (NewLLRBTree (Some int_compare)) 2;
        (t, _, _) \<leftarrow> ReplaceOrInsert 0 t 1;
        (t, _, _) \<leftarrow> ReplaceOrInsert 0 t 4;
        (t, _, _) \<leftarrow> ReplaceOrInsert 0 t 3;
        Some t } = Some tree_2143"
  by (simp add: ReplaceOrInsert_def NewLLRBTree_def newNode_def int_compare_def fixUp.simps tree_2143_def)

lemma run_append:
  "run iter (xs @ ys) s = (case run iter xs s of (go, s') \<Rightarrow> if go then run iter ys s' else (False, s'))"
  by (induction xs arbitrary: s) (auto split: prod.splits)

lemma boundCmp_Some [simp]:
  "boundCmp (Some cmp) b x test = Some (valid b \<and> test (cmp x (nitem b)))"
  by (simp add: boundCmp_def)

lemma boundCmp_invalid [simp]: "\<not> valid b \<Longrightarrow> boundCmp cmpo b x test = Some False"
  by (simp add: boundCmp_def)

lemma iterate_run:
  "iterate (Some cmp) h desc start en iter s = Some (run iter (visit cmp h desc start en) s)"
proof (induction h arbitrary: s)
  case Null
  show ?case by simp
next
  case (Node x l r c)
  show ?case
  proof (cases desc)
    case False
    with Node.IH have IH:
      "\<And>s. iterate (Some cmp) l False start en iter s = Some (run iter (visit cmp l False start en) s)"
      "\<And>s. iterate (Some cmp) r False start en iter s = Some (run iter (visit cmp r False start en) s)"
      by simp_all
    obtain go1 s1 where 1: "run iter (visit cmp l False start en) s = (go1, s1)" by force
    obtain go2 s2 where 2: "iter x s1 = (go2, s2)" by force
    from False 1 2 show ?thesis by (simp add: IH run_append)
  next
    case True
    with Node.IH have IH:
      "\<And>s. iterate (Some cmp) l True start en iter s = Some (run iter (visit cmp l True start en) s)"
      "\<And>s. iterate (Some cmp) r True start en iter s = Some (run iter (visit cmp r True start en) s)"
      by simp_all
    obtain go1 s1 where 1: "run iter (visit cmp r True start en) s = (go1, s1)" by force
    obtain go2 s2 where 2: "iter x s1 = (go2, s2)" by force
    from True 1 2 show ?thesis by (simp add: IH run_append)
  qed
qed

lemma iterate_unbounded:
  assumes nv: "\<not> valid start" "\<not> valid en"
  shows "iterate cmpo h desc start en iter s =
     Some (run iter (if desc then rev (inorder h) else inorder h) s)"
proof (induction h arbitrary: s)
  case Null
  show ?case by simp
next
  case (Node x l r c)
  show ?case
  proof (cases desc)
    case False
    with Node.IH have IH:
      "\<And>s. iterate cmpo l False start en iter s = Some (run iter (inorder l) s)"
      "\<And>s. iterate cmpo r False start en iter s = Some (run iter (inorder r) s)"
      by simp_all
    obtain go1 s1 where 1: "run iter (inorder l) s = (go1, s1)" by force
    obtain go2 s2 where 2: "iter x s1 = (go2, s2)" by force
    from False 1 2 nv show ?thesis by (simp add: IH run_append)
  next
    case True
    with Node.IH have IH:
      "\<And>s. iterate cmpo l True start en iter s = Some (run iter (rev (inorder l)) s)"
      "\<And>s. iterate cmpo r True start en iter s = Some (run iter (rev (inorder r)) s)"
      by simp_all
    obtain go1 s1 where 1: "run iter (rev (inorder r)) s = (go1, s1)" by force
    obtain go2 s2 where 2: "iter x s1 = (go2, s2)" by force
    from True 1 2 nv show ?thesis by (simp add: IH run_append)
  qed
qed

lemma run_logging:
  "run (logging iter) xs (s, log0) =
     (fst (run iter xs s), (snd (run iter xs s), log0 @ trace iter xs s))"
  by (induction xs arbitrary: s log0) (auto simp: logging_def split: prod.splits)


lemma trace_stop:
  "k < length (trace iter xs s) \<Longrightarrow> \<not> snd (trace iter xs s ! k) \<Longrightarrow>
   Suc k = length (trace iter xs s)"
proof (induction xs arbitrary: s k)
  case Nil
  then show ?case by simp
next
  case (Cons x xs)
  obtain go s' where i: "iter x s = (go, s')" by force
  show ?case
  proof (cases k)
    case 0
    with Cons.prems i show ?thesis by (auto split: if_splits)
  next
    case (Suc j)
    with Cons.prems i have go: "go" by (auto split: if_splits)
    with Cons.prems i Suc have "j < length (trace iter xs s')" "\<not> snd (trace iter xs s' ! j)"
      by auto
    from Cons.IH[OF this] go i Suc show ?thesis by simp
  qed
qed

lemma trace_all: "\<forall>x s. fst (iter x s) \<Longrightarrow> map fst (trace iter xs s) = xs"
proof (induction xs arbitrary: s)
  case Nil
  then show ?case by simp
next
  case (Cons x xs)
  obtain go s' where i: "iter x s = (go, s')" by force
  with Cons.prems have "go" by (metis fst_conv)
  with Cons i show ?case by simp
qed

lemma trace_short:
  "length (trace iter xs s) < length xs \<Longrightarrow>
   trace iter xs s \<noteq> [] \<and> \<not> snd (last (trace iter xs s))"
  by (induction xs arbitrary: s) (auto split: prod.splits if_splits)




lemma iterate_logging:
  "iterate (Some cmp) h desc start en (logging iter) (s, []) =
     Some (fst (run iter (visit cmp h desc start en) s),
           snd (run iter (visit cmp h desc start en) s),
           trace iter (visit cmp h desc start en) s)"
  by (simp add: iterate_run run_logging)

lemma iterate_unbounded_logging:
  "\<not> valid start \<Longrightarrow> \<not> valid en \<Longrightarrow>
   iterate cmpo h desc start en (logging iter) (s, []) =
     Some (fst (run iter (if desc then rev (inorder h) else inorder h) s),
           snd (run iter (if desc then rev (inorder h) else inorder h) s),
           trace iter (if desc then rev (inorder h) else inorder h) s)"
  by (simp add: iterate_unbounded run_logging)


subsection \<open>Structural invariants of insertion and deletion\<close>

lemma node_cases [case_names Null Red Black]:
  obtains "t = Null" | x l r where "t = Node x l r red" | x l r where "t = Node x l r black"
  by (cases t) auto

lemma fixUp_left:
  assumes "llrb (blackenRoot l)" "c \<longrightarrow> llrb l" "llrb r" "\<not> isRed r"
    "balanced l" "balanced r" "bh l = bh r"
  shows "\<exists>h'. fixUp (Node y l r c) = Some h' \<and> balanced h' \<and> bh h' = bh (Node y l r c) \<and>
           llrb (blackenRoot h') \<and> (\<not> c \<longrightarrow> llrb h')"
proof (cases l rule: node_cases)
  case Null
  with assms show ?thesis by (auto simp: fixUp.simps)
next
  case (Red lx ll lr)
  with assms show ?thesis
    by (cases ll rule: node_cases; cases r rule: node_cases) (auto simp: fixUp.simps)
next
  case (Black lx ll lr)
  with assms show ?thesis by (auto simp: fixUp.simps)
qed

lemma fixUp_right:
  assumes "llrb l" "c \<longrightarrow> \<not> isRed l" "llrb r"
    "balanced l" "balanced r" "bh l = bh r"
  shows "\<exists>h'. fixUp (Node y l r c) = Some h' \<and> balanced h' \<and> bh h' = bh (Node y l r c) \<and>
           llrb (blackenRoot h') \<and> (\<not> c \<longrightarrow> llrb h') \<and> (\<not> c \<and> \<not> isRed l \<longrightarrow> \<not> isRed h')"
proof (cases r rule: node_cases)
  case Null
  with assms show ?thesis by (cases l rule: node_cases) (auto simp: fixUp.simps)
next
  case (Red rx rl rr)
  with assms show ?thesis
    by (cases l rule: node_cases) (auto simp: fixUp.simps)
next
  case (Black rx rl rr)
  with assms show ?thesis by (cases l rule: node_cases) (auto simp: fixUp.simps)
qed

lemma llrb_blackenRoot: "llrb h \<Longrightarrow> llrb (blackenRoot h)"
  by (cases h) auto

lemma fixUp_llrb: "llrb h \<Longrightarrow> h \<noteq> Null \<Longrightarrow> fixUp h = Some h"
  by (cases h; cases "left h" rule: node_cases; cases "right h" rule: node_cases)
    (auto simp: fixUp.simps)

lemma insert_node_llrb:
  "llrb h \<Longrightarrow> balanced h \<Longrightarrow>
   \<exists>h' pe. insert_node (Some cmp) z h x = Some (h', pe) \<and> balanced h' \<and> bh h' = bh h \<and>
     llrb (blackenRoot h') \<and> (\<not> isRed h \<longrightarrow> llrb h')"
proof (induction h)
  case Null
  have "insert_node (Some cmp) z Null x = Some (newNode x, (z, False))" by simp
  then show ?case by (auto simp: newNode_def simp del: insert_node.simps)
next
  case (Node y l r c)
  then have pre: "llrb l" "llrb r" "balanced l" "balanced r" "bh l = bh r" "\<not> isRed r"
    "c \<longrightarrow> \<not> isRed l" by auto
  consider (eq) "cmp x y = 0" | (lt) "cmp x y < 0" | (gt) "0 < cmp x y" by linarith
  then show ?case
  proof cases
    case eq
    have "llrb (Node x l r c)" using pre by simp
    then have "fixUp (Node x l r c) = Some (Node x l r c)" by (rule fixUp_llrb) simp
    with eq pre show ?thesis by auto
  next
    case lt
    from Node.IH(1)[OF pre(1) pre(3)] obtain l' pe where
      l': "insert_node (Some cmp) z l x = Some (l', pe)" "balanced l'" "bh l' = bh l"
        "llrb (blackenRoot l')" "\<not> isRed l \<longrightarrow> llrb l'" by blast
    from fixUp_left[of l' c r y] l' pre obtain h' where
      "fixUp (Node y l' r c) = Some h'" "balanced h'" "bh h' = bh (Node y l' r c)"
      "llrb (blackenRoot h')" "\<not> c \<longrightarrow> llrb h'" by auto
    with lt l' show ?thesis by (cases pe) auto
  next
    case gt
    from Node.IH(2)[OF pre(2) pre(4)] obtain r' pe where
      r': "insert_node (Some cmp) z r x = Some (r', pe)" "balanced r'" "bh r' = bh r"
        "llrb (blackenRoot r')" "\<not> isRed r \<longrightarrow> llrb r'" by blast
    from fixUp_right[of l c r' y] r' pre obtain h' where
      "fixUp (Node y l r' c) = Some h'" "balanced h'" "bh h' = bh (Node y l r' c)"
      "llrb (blackenRoot h')" "\<not> c \<longrightarrow> llrb h'" by auto
    with gt r' show ?thesis by (cases pe) auto
  qed
qed


lemma moveRedLeft_flip:
  "\<not> isRed rl \<Longrightarrow>
   moveRedLeft (Node x (Node lx ll lr lc) (Node rx rl rr rc) c) =
     Some (Node x (Node lx ll lr (\<not> lc)) (Node rx rl rr (\<not> rc)) (\<not> c))"
  by (simp add: moveRedLeft_def)

lemma moveRedLeft_rotate:
  "moveRedLeft (Node x (Node lx ll lr lc) (Node rx (Node rlx rll rlr red) rr rc) c) =
     Some (Node rlx (Node x (Node lx ll lr (\<not> lc)) rll black) (Node rx rlr rr black) c)"
  by (simp add: moveRedLeft_def)

lemma moveRedRight_flip:
  "\<not> isRed ll \<Longrightarrow>
   moveRedRight (Node x (Node lx ll lr lc) (Node rx rl rr rc) c) =
     Some (Node x (Node lx ll lr (\<not> lc)) (Node rx rl rr (\<not> rc)) (\<not> c))"
  by (simp add: moveRedRight_def)

lemma moveRedRight_rotate:
  "moveRedRight (Node x (Node lx (Node llx lll llr red) lr lc) (Node rx rl rr rc) c) =
     Some (Node lx (Node llx lll llr black) (Node x lr (Node rx rl rr (\<not> rc)) black) c)"
  by (simp add: moveRedRight_def)

lemma bh_zero_black: "bh t = 0 \<Longrightarrow> \<not> isRed t \<Longrightarrow> t = Null"
  by (cases t rule: node_cases) auto

lemma bh_Suc_black:
  "bh t = Suc n \<Longrightarrow> \<not> isRed t \<Longrightarrow> \<exists>x l r. t = Node x l r black \<and> bh l = n"
  by (cases t rule: node_cases) auto

text \<open>\<^verbatim>\<open>fixUp\<close> on a black node whose right child is red with black children, after the
  left subtree has been replaced.\<close>

lemma fixUp_red_right:
  assumes "llrb l'" "balanced l'" "bh l' = bh rl" "llrb rl" "llrb rr" "\<not> isRed rl" "\<not> isRed rr"
    "balanced rl" "balanced rr" "bh rl = bh rr"
  shows "\<exists>h'. fixUp (Node x l' (Node rx rl rr red) black) = Some h' \<and> llrb h' \<and> balanced h' \<and>
           bh h' = Suc (bh l')"
  using assms
  by (cases l' rule: node_cases) (auto simp: fixUp.simps)

lemma deleteMin_leaf: "deleteMin z (Node x Null r c) = Some (Null, x, True)"
  by simp

lemma deleteMin_step:
  "l \<noteq> Null \<Longrightarrow>
   (if \<not> isRed l \<and> \<not> isRed (left l) then moveRedLeft (Node x l r c) else Some (Node x l r c))
     = Some (Node y hl hr hc) \<Longrightarrow>
   deleteMin z hl = Some (l', d, ok) \<Longrightarrow>
   fixUp (Node y l' hr hc) = Some h' \<Longrightarrow>
   deleteMin z (Node x l r c) = Some (h', d, ok)"
  by simp

declare deleteMin.simps [simp del]

lemma deleteMin_inv:
  "h \<noteq> Null \<Longrightarrow> dshape h \<Longrightarrow> \<not> isRed (right h) \<Longrightarrow> balanced h \<Longrightarrow>
   \<exists>h' d. deleteMin z h = Some (h', d, True) \<and> llrb h' \<and> balanced h' \<and> bh h' = bh h \<and>
     (\<not> isRed h \<longrightarrow> \<not> isRed h') \<and> inorder h = d # inorder h'"
proof (induction z h rule: deleteMin.induct)
  case (1 z)
  then show ?case by simp
next
  case (2 z x l r c)
  from "2.prems" have pre: "llrb l" "llrb r" "\<not> isRed r" "balanced l" "balanced r" "bh l = bh r"
    "c \<longrightarrow> \<not> isRed l" "\<not> c \<longrightarrow> isRed l"
    by (auto split: if_splits)
  note IH = "2.IH"
  show ?case
  proof (cases l rule: node_cases)
    case Null
    with pre have "r = Null" "c" by (auto intro: bh_zero_black)
    with Null show ?thesis by (simp add: deleteMin_leaf)
  next
    case (Red lx ll lr)
    with pre have c: "\<not> c" by auto
    have m: "(if \<not> isRed l \<and> \<not> isRed (left l) then moveRedLeft (Node x l r c) else Some (Node x l r c))
        = Some (Node x l r c)" using Red by simp
    from IH[OF _ m] Red pre obtain l' d where
      l': "deleteMin z l = Some (l', d, True)" "llrb l'" "balanced l'" "bh l' = bh l"
        "inorder l = d # inorder l'" by auto
    have "llrb (Node x l' r c)" using l' pre c by simp
    then have f: "fixUp (Node x l' r c) = Some (Node x l' r c)" by (rule fixUp_llrb) simp
    have "deleteMin z (Node x l r c) = Some (Node x l' r c, d, True)"
      using Red by (intro deleteMin_step[OF _ m l'(1) f]) simp
    with l' pre c show ?thesis by simp
  next
    case (Black lx ll lr)
    note l = Black
    with pre have c: "c" by auto
    from l pre have lsub: "llrb ll" "llrb lr" "\<not> isRed lr" "balanced ll" "balanced lr"
      "bh ll = bh lr" by auto
    from l pre obtain rx rl rr where r: "r = Node rx rl rr black" "bh rl = bh ll"
      using bh_Suc_black[of r "bh ll"] by auto
    with pre have rsub: "llrb rl" "llrb rr" "\<not> isRed rr" "balanced rl" "balanced rr"
      "bh rl = bh rr" by auto
    show ?thesis
    proof (cases "isRed ll")
      case True
      have m: "(if \<not> isRed l \<and> \<not> isRed (left l) then moveRedLeft (Node x l r c)
          else Some (Node x l r c)) = Some (Node x l r c)" using l True by simp
      from IH[OF _ m] l pre True lsub obtain l' d where
        l': "deleteMin z l = Some (l', d, True)" "llrb l'" "balanced l'" "bh l' = bh l"
          "\<not> isRed l'" "inorder l = d # inorder l'" by auto
      have "llrb (Node x l' r c)" using l' pre c by simp
      then have f: "fixUp (Node x l' r c) = Some (Node x l' r c)" by (rule fixUp_llrb) simp
      have "deleteMin z (Node x l r c) = Some (Node x l' r c, d, True)"
        using l by (intro deleteMin_step[OF _ m l'(1) f]) simp
      with l' pre c show ?thesis by simp
    next
      case False
      have flip: ?thesis if rl: "\<not> isRed rl"
      proof -
        have m: "(if \<not> isRed l \<and> \<not> isRed (left l) then moveRedLeft (Node x l r c)
            else Some (Node x l r c)) = Some (Node x (Node lx ll lr red) (Node rx rl rr red) black)"
          using l False r rl c by (simp add: moveRedLeft_flip)
        from IH[OF _ m] l False lsub obtain l' d where
          l': "deleteMin z (Node lx ll lr red) = Some (l', d, True)"
            "llrb l'" "balanced l'" "bh l' = bh ll"
            "inorder (Node lx ll lr red) = d # inorder l'" by auto
        from fixUp_red_right[of l' rl rr x rx] l' r rsub rl obtain h' where
          h': "fixUp (Node x l' (Node rx rl rr red) black) = Some h'" "llrb h'" "balanced h'"
          "bh h' = Suc (bh l')" by auto
        have "deleteMin z (Node x l r c) = Some (h', d, True)"
          using l by (intro deleteMin_step[OF _ m l'(1) h'(1)]) simp
        moreover have "inorder h' = inorder l' @ x # inorder r"
          using inorder_fixUp[OF h'(1)] r by simp
        ultimately show ?thesis using h' l' l c by simp
      qed
      show ?thesis
      proof (cases rl rule: node_cases)
        case (Red rlx rll rlr)
        have m: "(if \<not> isRed l \<and> \<not> isRed (left l) then moveRedLeft (Node x l r c)
            else Some (Node x l r c)) =
            Some (Node rlx (Node x (Node lx ll lr red) rll black) (Node rx rlr rr black) c)"
          using l False r Red by (simp add: moveRedLeft_rotate)
        from Red rsub r have rlsub: "llrb rll" "llrb rlr" "\<not> isRed rll" "\<not> isRed rlr"
          "balanced rll" "balanced rlr" "bh rll = bh rlr" "bh rll = bh ll" by auto
        from IH[OF _ m] l False lsub rlsub obtain l' d where
          l': "deleteMin z (Node x (Node lx ll lr red) rll black) = Some (l', d, True)"
            "llrb l'" "balanced l'" "bh l' = Suc (bh ll)" "\<not> isRed l'"
            "inorder (Node x (Node lx ll lr red) rll black) = d # inorder l'" by auto
        have "llrb (Node rlx l' (Node rx rlr rr black) c)" using l' rlsub rsub by simp
        then have f: "fixUp (Node rlx l' (Node rx rlr rr black) c) =
            Some (Node rlx l' (Node rx rlr rr black) c)" by (rule fixUp_llrb) simp
        have "deleteMin z (Node x l r c) = Some (Node rlx l' (Node rx rlr rr black) c, d, True)"
          using l by (intro deleteMin_step[OF _ m l'(1) f]) simp
        with l' l r Red rlsub rsub c show ?thesis by simp
      next
        case Null
        then show ?thesis by (intro flip) simp
      next
        case (Black rlx rll rlr)
        then show ?thesis by (intro flip) simp
      qed
    qed
  qed
qed


lemma deleteMax_leaf:
  "(if isRed l then rotateRight (Node x l r c) else Some (Node x l r c)) = Some h0 \<Longrightarrow>
   right h0 = Null \<Longrightarrow> deleteMax z (Node x l r c) = Some (Null, item h0, True)"
  by simp

lemma deleteMax_step:
  "(if isRed l then rotateRight (Node x l r c) else Some (Node x l r c)) = Some h0 \<Longrightarrow>
   right h0 \<noteq> Null \<Longrightarrow>
   (if \<not> isRed (right h0) \<and> \<not> isRed (left (right h0)) then moveRedRight h0 else Some h0)
     = Some (Node y hl hr hc) \<Longrightarrow>
   deleteMax z hr = Some (r', d, ok) \<Longrightarrow>
   fixUp (Node y hl r' hc) = Some h' \<Longrightarrow>
   deleteMax z (Node x l r c) = Some (h', d, ok)"
  by simp

declare deleteMax.simps [simp del]

lemma deleteMax_inv:
  "h \<noteq> Null \<Longrightarrow> dshape h \<Longrightarrow> balanced h \<Longrightarrow>
   \<exists>h' d. deleteMax z h = Some (h', d, True) \<and> llrb h' \<and> balanced h' \<and> bh h' = bh h \<and>
     (\<not> isRed h \<longrightarrow> \<not> isRed h') \<and> inorder h = inorder h' @ [d]"
proof (induction z h rule: deleteMax.induct)
  case (1 z)
  then show ?case by simp
next
  case (2 z x l r c)
  from "2.prems" have pre: "llrb l" "llrb r" "balanced l" "balanced r" "bh l = bh r"
    "c \<longrightarrow> \<not> isRed l \<and> \<not> isRed r" "\<not> c \<longrightarrow> isRed l \<noteq> isRed r"
    by (auto split: if_splits)
  note IH = "2.IH"
  show ?case
  proof (cases "isRed l")
    case True
    then obtain lx ll lr where l: "l = Node lx ll lr red" by (cases l rule: node_cases) auto
    with pre have c: "\<not> c" and nr: "\<not> isRed r" by auto
    from l pre have lsub: "llrb ll" "llrb lr" "\<not> isRed ll" "\<not> isRed lr" "balanced ll"
      "balanced lr" "bh ll = bh lr" "bh lr = bh r" by auto
    have r0: "(if isRed l then rotateRight (Node x l r c) else Some (Node x l r c))
        = Some (Node lx ll (Node x lr r red) c)" using l by simp
    have m: "(if \<not> isRed (right (Node lx ll (Node x lr r red) c)) \<and>
          \<not> isRed (left (right (Node lx ll (Node x lr r red) c)))
        then moveRedRight (Node lx ll (Node x lr r red) c) else Some (Node lx ll (Node x lr r red) c))
        = Some (Node lx ll (Node x lr r red) c)" by simp
    from IH[OF r0 _ m] lsub pre nr obtain r' d where
      r': "deleteMax z (Node x lr r red) = Some (r', d, True)" "llrb r'" "balanced r'"
        "bh r' = bh lr" "inorder (Node x lr r red) = inorder r' @ [d]" by auto
    from fixUp_right[of ll c r' lx] lsub r' c obtain h' where
      h': "fixUp (Node lx ll r' c) = Some h'" "balanced h'" "bh h' = Suc (bh ll)" "llrb h'"
        "\<not> isRed h'" by auto
    have "deleteMax z (Node x l r c) = Some (h', d, True)"
      by (rule deleteMax_step[OF r0 _ m r'(1) h'(1)]) simp
    moreover have "inorder h' = inorder ll @ lx # inorder r'"
      using inorder_fixUp[OF h'(1)] by simp
    ultimately show ?thesis using h' r' l c lsub by simp
  next
    case False
    have r0: "(if isRed l then rotateRight (Node x l r c) else Some (Node x l r c))
        = Some (Node x l r c)" using False by simp
    show ?thesis
    proof (cases r rule: node_cases)
      case Null
      with pre False have "l = Null" "c" by (auto intro: bh_zero_black)
      moreover have "deleteMax z (Node x l r c) = Some (Null, x, True)"
        using deleteMax_leaf[OF r0, of z] Null by simp
      ultimately show ?thesis using Null by simp
    next
      case (Red rx rl rr)
      with pre False have c: "\<not> c" by auto
      from Red pre have rsub: "llrb rl" "llrb rr" "\<not> isRed rl" "\<not> isRed rr" "balanced rl"
        "balanced rr" "bh rl = bh rr" "bh l = bh rl" by auto
      have m: "(if \<not> isRed (right (Node x l r c)) \<and> \<not> isRed (left (right (Node x l r c)))
          then moveRedRight (Node x l r c) else Some (Node x l r c)) = Some (Node x l r c)"
        using Red by simp
      from IH[OF r0 _ m] Red rsub pre obtain r' d where
        r': "deleteMax z r = Some (r', d, True)" "llrb r'" "balanced r'"
          "bh r' = bh rl" "inorder r = inorder r' @ [d]" by auto
      from fixUp_right[of l c r' x] pre rsub r' c False obtain h' where
        h': "fixUp (Node x l r' c) = Some h'" "balanced h'" "bh h' = Suc (bh l)" "llrb h'"
          "\<not> isRed h'" by auto
      have "deleteMax z (Node x l r c) = Some (h', d, True)"
        using Red by (intro deleteMax_step[OF r0 _ m r'(1) h'(1)]) simp
      moreover have "inorder h' = inorder l @ x # inorder r'"
        using inorder_fixUp[OF h'(1)] by simp
      ultimately show ?thesis using h' r' c by simp
    next
      case (Black rx rl rr)
      note r = Black
      with pre False have c: "c" by auto
      from r pre have rsub: "llrb rl" "llrb rr" "\<not> isRed rr" "balanced rl"
        "balanced rr" "bh rl = bh rr" by auto
      from r pre False obtain lx ll lr where l: "l = Node lx ll lr black" "bh ll = bh rl"
        using bh_Suc_black[of l "bh rl"] by auto
      with pre have lsub: "llrb ll" "llrb lr" "\<not> isRed lr" "balanced ll" "balanced lr"
        "bh ll = bh lr" by auto
      show ?thesis
      proof (cases "isRed rl")
        case True
        have m: "(if \<not> isRed (right (Node x l r c)) \<and> \<not> isRed (left (right (Node x l r c)))
            then moveRedRight (Node x l r c) else Some (Node x l r c)) = Some (Node x l r c)"
          using r True by simp
        from IH[OF r0 _ m] r rsub True obtain r' d where
          r': "deleteMax z r = Some (r', d, True)" "llrb r'" "balanced r'"
            "bh r' = bh r" "\<not> isRed r'" "inorder r = inorder r' @ [d]" by auto
        have "llrb (Node x l r' c)" using r' pre by simp
        then have f: "fixUp (Node x l r' c) = Some (Node x l r' c)" by (rule fixUp_llrb) simp
        have "deleteMax z (Node x l r c) = Some (Node x l r' c, d, True)"
          using r by (intro deleteMax_step[OF r0 _ m r'(1) f]) simp
        with r' pre c show ?thesis by simp
      next
        case False
        show ?thesis
        proof (cases ll rule: node_cases)
          case (Red llx lll llr)
          have m: "(if \<not> isRed (right (Node x l r c)) \<and> \<not> isRed (left (right (Node x l r c)))
              then moveRedRight (Node x l r c) else Some (Node x l r c)) =
              Some (Node lx (Node llx lll llr black) (Node x lr (Node rx rl rr red) black) c)"
            using r False l Red by (simp add: moveRedRight_rotate)
          from Red lsub l have llsub: "llrb lll" "llrb llr" "\<not> isRed lll" "\<not> isRed llr"
            "balanced lll" "balanced llr" "bh lll = bh llr" "bh lll = bh rl" by auto
          from IH[OF r0 _ m] r False rsub lsub llsub Red obtain r' d where
            r': "deleteMax z (Node x lr (Node rx rl rr red) black) = Some (r', d, True)"
              "llrb r'" "balanced r'" "bh r' = Suc (bh lr)" "\<not> isRed r'"
              "inorder (Node x lr (Node rx rl rr red) black) = inorder r' @ [d]" by auto
          have "llrb (Node lx (Node llx lll llr black) r' c)" using r' llsub by simp
          then have f: "fixUp (Node lx (Node llx lll llr black) r' c) =
              Some (Node lx (Node llx lll llr black) r' c)" by (rule fixUp_llrb) simp
          have "deleteMax z (Node x l r c) = Some (Node lx (Node llx lll llr black) r' c, d, True)"
            using r by (intro deleteMax_step[OF r0 _ m r'(1) f]) simp
          with r' l r Red llsub lsub c show ?thesis by simp
        next
          case Null
          then have nl: "\<not> isRed ll" by simp
          have m: "(if \<not> isRed (right (Node x l r c)) \<and> \<not> isRed (left (right (Node x l r c)))
              then moveRedRight (Node x l r c) else Some (Node x l r c)) =
              Some (Node x (Node lx ll lr red) (Node rx rl rr red) black)"
            using r False l nl c by (simp add: moveRedRight_flip)
          from IH[OF r0 _ m] r False rsub obtain r' d where
            r': "deleteMax z (Node rx rl rr red) = Some (r', d, True)"
              "llrb r'" "balanced r'" "bh r' = bh rl"
              "inorder (Node rx rl rr red) = inorder r' @ [d]" by auto
          from fixUp_right[of "Node lx ll lr red" black r' x] lsub nl r' l obtain h' where
            h': "fixUp (Node x (Node lx ll lr red) r' black) = Some h'" "balanced h'"
              "bh h' = Suc (bh ll)" "llrb h'" by auto
          have "deleteMax z (Node x l r c) = Some (h', d, True)"
            using r by (intro deleteMax_step[OF r0 _ m r'(1) h'(1)]) simp
          moreover have "inorder h' = inorder l @ x # inorder r'"
            using inorder_fixUp[OF h'(1)] l by simp
          ultimately show ?thesis using h' r' l r c by simp
        next
          case (Black llx lll llr)
          then have nl: "\<not> isRed ll" by simp
          have m: "(if \<not> isRed (right (Node x l r c)) \<and> \<not> isRed (left (right (Node x l r c)))
              then moveRedRight (Node x l r c) else Some (Node x l r c)) =
              Some (Node x (Node lx ll lr red) (Node rx rl rr red) black)"
            using r False l nl c by (simp add: moveRedRight_flip)
          from IH[OF r0 _ m] r False rsub obtain r' d where
            r': "deleteMax z (Node rx rl rr red) = Some (r', d, True)"
              "llrb r'" "balanced r'" "bh r' = bh rl"
              "inorder (Node rx rl rr red) = inorder r' @ [d]" by auto
          from fixUp_right[of "Node lx ll lr red" black r' x] lsub nl r' l obtain h' where
            h': "fixUp (Node x (Node lx ll lr red) r' black) = Some h'" "balanced h'"
              "bh h' = Suc (bh ll)" "llrb h'" by auto
          have "deleteMax z (Node x l r c) = Some (h', d, True)"
            using r by (intro deleteMax_step[OF r0 _ m r'(1) h'(1)]) simp
          moreover have "inorder h' = inorder l @ x # inorder r'"
            using inorder_fixUp[OF h'(1)] l by simp
          ultimately show ?thesis using h' r' l r c by simp
        qed
      qed
    qed
  qed
qed


lemma right_finish:
  assumes "llrb hl" "hc \<longrightarrow> \<not> isRed hl" "llrb r'" "balanced hl" "balanced r'" "bh hl = bh r'"
    "hc \<longrightarrow> \<not> isRed r'"
  shows "\<exists>h'. fixUp (Node w hl r' hc) = Some h' \<and> llrb h' \<and> balanced h' \<and>
           bh h' = bh (Node w hl r' hc) \<and> (\<not> hc \<and> \<not> isRed hl \<longrightarrow> \<not> isRed h') \<and>
           inorder h' = inorder hl @ w # inorder r'"
proof (cases hc)
  case True
  with assms have "llrb (Node w hl r' hc)" by simp
  then have "fixUp (Node w hl r' hc) = Some (Node w hl r' hc)" by (rule fixUp_llrb) simp
  with assms True show ?thesis by simp
next
  case False
  from fixUp_right[of hl hc r' w] assms False obtain h' where
    h': "fixUp (Node w hl r' hc) = Some h'" "balanced h'" "bh h' = bh (Node w hl r' hc)"
      "llrb h'" "\<not> isRed hl \<longrightarrow> \<not> isRed h'" by auto
  with inorder_fixUp[OF h'(1)] show ?thesis by simp
qed

lemma left_finish:
  assumes "llrb l'" "balanced l'" "llrb hr" "balanced hr" "bh l' = bh hr"
    "hc \<longrightarrow> \<not> isRed l' \<and> \<not> isRed hr"
  shows "\<exists>h'. fixUp (Node w l' hr hc) = Some h' \<and> llrb h' \<and> balanced h' \<and>
           bh h' = bh (Node w l' hr hc) \<and> (\<not> hc \<and> \<not> isRed hr \<longrightarrow> \<not> isRed h') \<and>
           inorder h' = inorder l' @ w # inorder hr"
proof (cases "isRed hr")
  case False
  with assms have "llrb (Node w l' hr hc)" by simp
  then have "fixUp (Node w l' hr hc) = Some (Node w l' hr hc)" by (rule fixUp_llrb) simp
  with assms False show ?thesis by simp
next
  case True
  then obtain rx rl rr where hr: "hr = Node rx rl rr red" by (cases hr rule: node_cases) auto
  with assms True have hc: "\<not> hc" by auto
  from fixUp_red_right[of l' rl rr w rx] assms hr obtain h' where
    h': "fixUp (Node w l' (Node rx rl rr red) black) = Some h'" "llrb h'" "balanced h'"
      "bh h' = Suc (bh l')" by auto
  with inorder_fixUp[OF h'(1)] hr hc True show ?thesis by simp
qed

lemma delete_Null: "delete cmpo z Null k = Some (Null, z, False)"
  by simp

lemma delete_left_leaf:
  "cmp k y < 0 \<Longrightarrow> delete (Some cmp) z (Node y Null r c) k = Some (Node y Null r c, z, False)"
  by simp

lemma delete_left_step:
  "cmp k y < 0 \<Longrightarrow> l \<noteq> Null \<Longrightarrow>
   (if \<not> isRed l \<and> \<not> isRed (left l) then moveRedLeft (Node y l r c) else Some (Node y l r c))
     = Some (Node y1 hl hr hc) \<Longrightarrow>
   delete (Some cmp) z hl k = Some (l', d, ok) \<Longrightarrow>
   fixUp (Node y1 l' hr hc) = Some h' \<Longrightarrow>
   delete (Some cmp) z (Node y l r c) k = Some (h', d, ok)"
  by simp

lemma delete_right_leaf:
  "\<not> cmp k y < 0 \<Longrightarrow>
   (if isRed l then rotateRight (Node y l r c) else Some (Node y l r c)) = Some h0 \<Longrightarrow>
   cmp k (item h0) = 0 \<Longrightarrow> right h0 = Null \<Longrightarrow>
   delete (Some cmp) z (Node y l r c) k = Some (Null, item h0, True)"
  by simp

lemma delete_right_here:
  "\<not> cmp k y < 0 \<Longrightarrow>
   (if isRed l then rotateRight (Node y l r c) else Some (Node y l r c)) = Some h0 \<Longrightarrow>
   \<not> (cmp k (item h0) = 0 \<and> right h0 = Null) \<Longrightarrow>
   (if right h0 \<noteq> Null \<and> \<not> isRed (right h0) \<and> \<not> isRed (left (right h0))
    then moveRedRight h0 else Some h0) = Some (Node y1 hl hr hc) \<Longrightarrow>
   cmp k y1 = 0 \<Longrightarrow>
   deleteMin z hr = Some (r', m, ok) \<Longrightarrow>
   fixUp (Node m hl r' hc) = Some h' \<Longrightarrow>
   delete (Some cmp) z (Node y l r c) k = Some (h', y1, True)"
  by auto

lemma delete_right_step:
  "\<not> cmp k y < 0 \<Longrightarrow>
   (if isRed l then rotateRight (Node y l r c) else Some (Node y l r c)) = Some h0 \<Longrightarrow>
   \<not> (cmp k (item h0) = 0 \<and> right h0 = Null) \<Longrightarrow>
   (if right h0 \<noteq> Null \<and> \<not> isRed (right h0) \<and> \<not> isRed (left (right h0))
    then moveRedRight h0 else Some h0) = Some (Node y1 hl hr hc) \<Longrightarrow>
   cmp k y1 \<noteq> 0 \<Longrightarrow>
   delete (Some cmp) z hr k = Some (r', d, ok) \<Longrightarrow>
   fixUp (Node y1 hl r' hc) = Some h' \<Longrightarrow>
   delete (Some cmp) z (Node y l r c) k = Some (h', d, ok)"
  by auto

declare delete.simps [simp del]

lemma delete_inv:
  assumes tot: "total_order cmp"
  shows "dshape h \<Longrightarrow> balanced h \<Longrightarrow> ordered cmp h \<Longrightarrow> keyok cmp k h \<Longrightarrow>
    \<exists>h'. delete (Some cmp) z h k = Some (h', find_list cmp z k (inorder h)) \<and>
      llrb h' \<and> balanced h' \<and> bh h' = bh h \<and> (\<not> isRed h \<longrightarrow> \<not> isRed h') \<and>
      inorder h' = del_list cmp k (inorder h)"
proof (induction "size h" arbitrary: h rule: less_induct)
  case less
  note IH = less.hyps
  show ?case
  proof (cases h)
    case Null
    then show ?thesis by (simp add: delete_Null)
  next
    case (Node y l r c)
    note h = Node
    from less.prems h have pre: "llrb l" "llrb r" "balanced l" "balanced r" "bh l = bh r"
      "c \<longrightarrow> \<not> isRed l \<and> \<not> isRed r" "\<not> c \<longrightarrow> isRed l \<noteq> isRed r"
      "isRed r \<longrightarrow> 0 \<le> cmp k y"
      by (auto split: if_splits)
    from less.prems h have srt: "sorted_wrt (\<lambda>a b. cmp a b < 0) (inorder (Node y l r c))"
      by (simp add: ordered_def)

    have left_case: ?thesis
      if lt: "cmp k y < 0" and ln: "l \<noteq> Null"
        and m: "(if \<not> isRed l \<and> \<not> isRed (left l) then moveRedLeft (Node y l r c)
                 else Some (Node y l r c)) = Some (Node y1 hl hr hc)"
        and io: "inorder (Node y l r c) = inorder hl @ y1 # inorder hr"
        and ky1: "cmp k y1 < 0"
        and sz: "size hl < size h"
        and shape: "dshape hl" "balanced hl" "keyok cmp k hl"
        and hrp: "llrb hr" "balanced hr" "bh hl = bh hr" "hc \<longrightarrow> \<not> isRed hl \<and> \<not> isRed hr"
        and bhh: "bh (Node y1 hl hr hc) = bh h"
        and col: "\<not> isRed h \<longrightarrow> \<not> hc \<and> \<not> isRed hr"
      for y1 hl hr hc
    proof -
      from srt io have mid: "\<forall>a\<in>set (inorder hl). cmp a y1 < 0" "\<forall>b\<in>set (inorder hr). cmp y1 b < 0"
        "sorted_wrt (\<lambda>a b. cmp a b < 0) (inorder hl)"
        by (auto dest: sorted_wrt_mid)
      then have "ordered cmp hl" by (simp add: ordered_def)
      from IH[OF sz shape(1,2) this shape(3)] obtain l' where
        l': "delete (Some cmp) z hl k = Some (l', find_list cmp z k (inorder hl))"
          "llrb l'" "balanced l'" "bh l' = bh hl" "\<not> isRed hl \<longrightarrow> \<not> isRed l'"
          "inorder l' = del_list cmp k (inorder hl)" by blast
      obtain d ok where f: "find_list cmp z k (inorder hl) = (d, ok)" by force
      from left_finish[of l' hr hc y1] l' hrp obtain h' where
        h': "fixUp (Node y1 l' hr hc) = Some h'" "llrb h'" "balanced h'"
          "bh h' = bh (Node y1 l' hr hc)" "\<not> hc \<and> \<not> isRed hr \<longrightarrow> \<not> isRed h'"
          "inorder h' = inorder l' @ y1 # inorder hr" by auto
      from l'(1) f have dl: "delete (Some cmp) z hl k = Some (l', d, ok)" by simp
      have run: "delete (Some cmp) z (Node y l r c) k = Some (h', d, ok)"
        by (rule delete_left_step[where cmp = cmp and k = k and y = y, OF lt ln m dl h'(1)])
      have "find_list cmp z k (inorder (Node y l r c)) = (d, ok)"
        unfolding io using find_list_left[OF tot mid(2) ky1] f by simp
      moreover have "del_list cmp k (inorder (Node y l r c)) = inorder h'"
        unfolding io using del_list_left[OF tot mid(2) ky1] h'(6) l'(6) by simp
      moreover have "bh h' = bh h" using h'(4) l'(4) bhh by (auto split: if_splits)
      ultimately show ?thesis using run h' col h by simp
    qed

    have right_step: ?thesis
      if nlt: "\<not> cmp k y < 0"
        and r0: "(if isRed l then rotateRight (Node y l r c) else Some (Node y l r c)) = Some h0"
        and nleaf: "\<not> (cmp k (item h0) = 0 \<and> right h0 = Null)"
        and m: "(if right h0 \<noteq> Null \<and> \<not> isRed (right h0) \<and> \<not> isRed (left (right h0))
                 then moveRedRight h0 else Some h0) = Some (Node y1 hl hr hc)"
        and io: "inorder (Node y l r c) = inorder hl @ y1 # inorder hr"
        and ky1: "0 < cmp k y1"
        and sz: "size hr < size h"
        and shape: "dshape hr" "balanced hr" "keyok cmp k hr"
        and hlp: "llrb hl" "balanced hl" "bh hl = bh hr" "hc \<longrightarrow> \<not> isRed hl \<and> \<not> isRed hr"
        and bhh: "bh (Node y1 hl hr hc) = bh h"
        and col: "\<not> isRed h \<longrightarrow> \<not> hc \<and> \<not> isRed hl"
      for h0 y1 hl hr hc
    proof -
      from srt io have mid: "\<forall>a\<in>set (inorder hl). cmp a y1 < 0" "\<forall>b\<in>set (inorder hr). cmp y1 b < 0"
        "sorted_wrt (\<lambda>a b. cmp a b < 0) (inorder hr)"
        by (auto dest: sorted_wrt_mid)
      then have "ordered cmp hr" by (simp add: ordered_def)
      from IH[OF sz shape(1,2) this shape(3)] obtain r' where
        r': "delete (Some cmp) z hr k = Some (r', find_list cmp z k (inorder hr))"
          "llrb r'" "balanced r'" "bh r' = bh hr" "\<not> isRed hr \<longrightarrow> \<not> isRed r'"
          "inorder r' = del_list cmp k (inorder hr)" by blast
      obtain d ok where f: "find_list cmp z k (inorder hr) = (d, ok)" by force
      from right_finish[of hl hc r' y1] r' hlp obtain h' where
        h': "fixUp (Node y1 hl r' hc) = Some h'" "llrb h'" "balanced h'"
          "bh h' = bh (Node y1 hl r' hc)" "\<not> hc \<and> \<not> isRed hl \<longrightarrow> \<not> isRed h'"
          "inorder h' = inorder hl @ y1 # inorder r'" by auto
      from ky1 have ne: "cmp k y1 \<noteq> 0" by simp
      from r'(1) f have dr: "delete (Some cmp) z hr k = Some (r', d, ok)" by simp
      have run: "delete (Some cmp) z (Node y l r c) k = Some (h', d, ok)"
        by (rule delete_right_step[where cmp = cmp and k = k and y = y and ?y1.0 = y1, OF nlt r0 nleaf m ne dr h'(1)])
      have "find_list cmp z k (inorder (Node y l r c)) = (d, ok)"
        unfolding io using find_list_right[OF tot mid(1) ky1] f by simp
      moreover have "del_list cmp k (inorder (Node y l r c)) = inorder h'"
        unfolding io using del_list_right[OF tot mid(1) ky1] h'(6) r'(6) by simp
      moreover have "bh h' = bh h" using h'(4) r'(4) hlp(3) bhh by (auto split: if_splits)
      ultimately show ?thesis using run h' col h by simp
    qed

    have right_here: ?thesis
      if nlt: "\<not> cmp k y < 0"
        and r0: "(if isRed l then rotateRight (Node y l r c) else Some (Node y l r c)) = Some h0"
        and nleaf: "\<not> (cmp k (item h0) = 0 \<and> right h0 = Null)"
        and m: "(if right h0 \<noteq> Null \<and> \<not> isRed (right h0) \<and> \<not> isRed (left (right h0))
                 then moveRedRight h0 else Some h0) = Some (Node y1 hl hr hc)"
        and io: "inorder (Node y l r c) = inorder hl @ y1 # inorder hr"
        and ky1: "cmp k y1 = 0"
        and shape: "hr \<noteq> Null" "dshape hr" "\<not> isRed (right hr)" "balanced hr"
        and hlp: "llrb hl" "balanced hl" "bh hl = bh hr" "hc \<longrightarrow> \<not> isRed hl \<and> \<not> isRed hr"
        and bhh: "bh (Node y1 hl hr hc) = bh h"
        and col: "\<not> isRed h \<longrightarrow> \<not> hc \<and> \<not> isRed hl"
      for h0 y1 hl hr hc
    proof -
      from srt io have mid: "\<forall>a\<in>set (inorder hl). cmp a y1 < 0" "\<forall>b\<in>set (inorder hr). cmp y1 b < 0"
        by (auto dest: sorted_wrt_mid)
      from deleteMin_inv[OF shape, of z] obtain r' mn where
        r': "deleteMin z hr = Some (r', mn, True)" "llrb r'" "balanced r'" "bh r' = bh hr"
          "\<not> isRed hr \<longrightarrow> \<not> isRed r'" "inorder hr = mn # inorder r'" by blast
      from right_finish[of hl hc r' mn] r' hlp obtain h' where
        h': "fixUp (Node mn hl r' hc) = Some h'" "llrb h'" "balanced h'"
          "bh h' = bh (Node mn hl r' hc)" "\<not> hc \<and> \<not> isRed hl \<longrightarrow> \<not> isRed h'"
          "inorder h' = inorder hl @ mn # inorder r'" by auto
      have run: "delete (Some cmp) z (Node y l r c) k = Some (h', y1, True)"
        by (rule delete_right_here[where cmp = cmp and k = k and y = y and ?y1.0 = y1, OF nlt r0 nleaf m ky1 r'(1) h'(1)])
      have "find_list cmp z k (inorder (Node y l r c)) = (y1, True)"
        unfolding io using find_list_here[OF tot mid(1) ky1] by simp
      moreover have "del_list cmp k (inorder (Node y l r c)) = inorder h'"
        unfolding io using del_list_here[OF tot mid(1) ky1] h'(6) r'(6) by simp
      moreover have "bh h' = bh h" using h'(4) r'(4) hlp(3) bhh by (auto split: if_splits)
      ultimately show ?thesis using run h' col h by simp
    qed

    show ?thesis
    proof (cases "cmp k y < 0")
      case True
      note lt = True
      with pre have nr: "\<not> isRed r" by auto
      show ?thesis
      proof (cases l rule: node_cases)
        case Null
        with pre nr have "r = Null" "c" by (auto intro: bh_zero_black)
        with Null lt h show ?thesis by (simp add: delete_left_leaf)
      next
        case (Red lx ll lr)
        with pre nr have "\<not> c" by auto
        with Red pre nr h lt show ?thesis
          by (intro left_case[OF lt, of y l r c]) auto
      next
        case (Black lx ll lr)
        note l = Black
        with pre nr have c: "c" by auto
        from l pre have lsub: "llrb ll" "llrb lr" "\<not> isRed lr" "balanced ll" "balanced lr"
          "bh ll = bh lr" by auto
        from l pre nr obtain rx rl rr where r: "r = Node rx rl rr black" "bh rl = bh ll"
          using bh_Suc_black[of r "bh ll"] by auto
        with pre have rsub: "llrb rl" "llrb rr" "\<not> isRed rr" "balanced rl" "balanced rr"
          "bh rl = bh rr" by auto
        show ?thesis
        proof (cases "isRed ll")
          case True
          with l r c pre lsub h lt show ?thesis
            by (intro left_case[OF lt, of y l r c]) auto
        next
          case False
          show ?thesis
          proof (cases "isRed rl")
            case True
            then obtain rlx rll rlr where rl: "rl = Node rlx rll rlr red"
              by (cases rl rule: node_cases) auto
            from srt l r rl have "cmp y rlx < 0" by (simp add: sorted_wrt_append)
            with lt have "cmp k rlx < 0" using cmp_below[OF tot, of y rlx k] by simp
            with l r rl c False lsub rsub h show ?thesis
              by (intro left_case[OF lt, of rlx "Node y (Node lx ll lr red) rll black"
                    "Node rx rlr rr black" c])
                (auto simp: moveRedLeft_rotate)
          next
            case nrl: False
            with l r c False lsub rsub lt h show ?thesis
              by (intro left_case[OF lt, of y "Node lx ll lr red" "Node rx rl rr red" black])
                (auto simp: moveRedLeft_flip)
          qed
        qed
      qed
    next
      case False
      note nlt = False
      then have ge: "0 \<le> cmp k y" by simp
      show ?thesis
      proof (cases "isRed l")
        case True
        then obtain lx ll lr where l: "l = Node lx ll lr red" by (cases l rule: node_cases) auto
        with pre have c: "\<not> c" and nr: "\<not> isRed r" by auto
        from srt l have "cmp lx y < 0" by (simp add: sorted_wrt_append)
        then have "0 < cmp k lx" using ge by (rule cmp_above[OF tot])
        with l c nr pre h show ?thesis
          by (intro right_step[OF nlt, of "Node lx ll (Node y lr r red) c" lx ll
                "Node y lr r red" c]) auto
      next
        case False
        note nl = False
        have r0: "(if isRed l then rotateRight (Node y l r c) else Some (Node y l r c))
            = Some (Node y l r c)" using nl by simp
        show ?thesis
        proof (cases r rule: node_cases)
          case Null
          with pre nl have ln: "l = Null" and c: "c" by (auto intro: bh_zero_black)
          show ?thesis
          proof (cases "cmp k y = 0")
            case True
            with delete_right_leaf[where cmp = cmp and k = k and y = y and z = z, OF nlt r0] Null ln c h
            show ?thesis by simp
          next
            case ne: False
            with ge have "0 < cmp k y" by simp
            with Null ln c ne h show ?thesis
              by (intro right_step[OF nlt r0, of y l r c]) auto
          qed
        next
          case (Red rx rl rr)
          with pre nl have c: "\<not> c" by auto
          show ?thesis
          proof (cases "cmp k y = 0")
            case True
            with Red c nl pre h show ?thesis
              by (intro right_here[OF nlt r0, of y l r c]) auto
          next
            case ne: False
            with ge have "0 < cmp k y" by simp
            with Red c nl pre ne h show ?thesis
              by (intro right_step[OF nlt r0, of y l r c]) auto
          qed
        next
          case (Black rx rl rr)
          note r = Black
          with pre nl have c: "c" by auto
          from r pre have rsub: "llrb rl" "llrb rr" "\<not> isRed rr" "balanced rl"
            "balanced rr" "bh rl = bh rr" by auto
          from r pre nl obtain lx ll lr where l: "l = Node lx ll lr black" "bh ll = bh rl"
            using bh_Suc_black[of l "bh rl"] by auto
          with pre have lsub: "llrb ll" "llrb lr" "\<not> isRed lr" "balanced ll" "balanced lr"
            "bh ll = bh lr" by auto
          show ?thesis
          proof (cases "isRed rl")
            case True
            show ?thesis
            proof (cases "cmp k y = 0")
              case eq: True
              with r l c True pre rsub h show ?thesis
                by (intro right_here[OF nlt r0, of y l r c]) auto
            next
              case ne: False
              with ge have "0 < cmp k y" by simp
              with r l c True pre rsub ne h show ?thesis
                by (intro right_step[OF nlt r0, of y l r c]) auto
            qed
          next
            case nrl: False
            show ?thesis
            proof (cases "isRed ll")
              case True
              then obtain llx lll llr where ll: "ll = Node llx lll llr red"
                by (cases ll rule: node_cases) auto
              from srt l ll have "cmp lx y < 0" by (simp add: sorted_wrt_append)
              then have "0 < cmp k lx" using ge by (rule cmp_above[OF tot])
              with r l ll c nrl lsub rsub ge h show ?thesis
                by (intro right_step[OF nlt r0, of lx "Node llx lll llr black"
                      "Node y lr (Node rx rl rr red) black" c])
                  (auto simp: moveRedRight_rotate)
            next
              case nll: False
              show ?thesis
              proof (cases "cmp k y = 0")
                case eq: True
                with r l c nrl nll lsub rsub h show ?thesis
                  by (intro right_here[OF nlt r0, of y "Node lx ll lr red"
                        "Node rx rl rr red" black])
                    (auto simp: moveRedRight_flip)
              next
                case ne: False
                with ge have "0 < cmp k y" by simp
                with r l c nrl nll lsub rsub ne h show ?thesis
                  by (intro right_step[OF nlt r0, of y "Node lx ll lr red"
                        "Node rx rl rr red" black])
                    (auto simp: moveRedRight_flip)
              qed
            qed
          qed
        qed
      qed
    qed
  qed
qed

subsection \<open>The colour of the root\<close>

lemma flipRoot_simps [simp]:
  "isRed (left (flipRoot h)) = isRed (left h)"
  "isRed (right (flipRoot h)) = isRed (right h)"
  "left (flipRoot h) = left h" "right (flipRoot h) = right h" "item (flipRoot h) = item h"
  "inorder (flipRoot h) = inorder h" "blackenRoot (flipRoot h) = blackenRoot h"
  "(flipRoot h = Null) = (h = Null)"
  by (cases h; simp)+

lemma rotateLeft_flipRoot: "rotateLeft (flipRoot h) = map_option flipRoot (rotateLeft h)"
  by (induction h rule: rotateLeft.induct) auto

lemma rotateRight_flipRoot: "rotateRight (flipRoot h) = map_option flipRoot (rotateRight h)"
  by (induction h rule: rotateRight.induct) auto

lemma colorFlip_flipRoot: "colorFlip (flipRoot h) = map_option flipRoot (colorFlip h)"
  by (induction h rule: colorFlip.induct) auto

lemma setLeft_flipRoot: "setLeft (flipRoot h) l = map_option flipRoot (setLeft h l)"
  by (cases h) auto

lemma setRight_flipRoot: "setRight (flipRoot h) r = map_option flipRoot (setRight h r)"
  by (cases h) auto

lemma setItem_flipRoot: "setItem (flipRoot h) x = map_option flipRoot (setItem h x)"
  by (cases h) auto

lemma bind_flip:
  "m' = map_option flipRoot m \<Longrightarrow> (\<And>h. f' (flipRoot h) = map_option g (f h)) \<Longrightarrow>
   Option.bind m' f' = map_option g (Option.bind m f)"
  by (cases m) auto

lemma fixUp_flipRoot: "fixUp (flipRoot h) = map_option flipRoot (fixUp h)"
proof (cases h)
  case Null
  then show ?thesis by (simp add: fixUp.simps)
next
  case (Node x l r c)
  have 1: "(if isRed r \<and> \<not> isRed l then rotateLeft (Node x l r (\<not> c)) else Some (Node x l r (\<not> c)))
      = map_option flipRoot (if isRed r \<and> \<not> isRed l then rotateLeft (Node x l r c) else Some (Node x l r c))"
    using rotateLeft_flipRoot[of "Node x l r c"] by simp
  have 3: "(if isRed (left (flipRoot h)) \<and> isRed (right (flipRoot h)) then colorFlip (flipRoot h)
        else Some (flipRoot h))
      = map_option flipRoot (if isRed (left h) \<and> isRed (right h) then colorFlip h else Some h)" for h :: "'a node"
    by (simp add: colorFlip_flipRoot)
  have 2: "(if isRed (left (flipRoot h)) \<and> isRed (left (left (flipRoot h))) then rotateRight (flipRoot h)
        else Some (flipRoot h)) \<bind>
        (\<lambda>h. if isRed (left h) \<and> isRed (right h) then colorFlip h else Some h)
      = map_option flipRoot ((if isRed (left h) \<and> isRed (left (left h)) then rotateRight h else Some h) \<bind>
        (\<lambda>h. if isRed (left h) \<and> isRed (right h) then colorFlip h else Some h))" for h :: "'a node"
    by (rule bind_flip, simp add: rotateRight_flipRoot, rule 3)
  show ?thesis unfolding Node flipRoot.simps fixUp.simps
    by (rule bind_flip[OF 1]) (rule 2)
qed

lemma moveRedLeft_flipRoot: "moveRedLeft (flipRoot h) = map_option flipRoot (moveRedLeft h)"
proof -
  have "(if isRed (left (right (flipRoot h))) then rotateRight (right (flipRoot h)) \<bind>
          (\<lambda>r. setRight (flipRoot h) r \<bind> (\<lambda>h. rotateLeft h \<bind> colorFlip)) else Some (flipRoot h))
      = map_option flipRoot (if isRed (left (right h)) then rotateRight (right h) \<bind>
          (\<lambda>r. setRight h r \<bind> (\<lambda>h. rotateLeft h \<bind> colorFlip)) else Some h)" for h :: "'a node"
  proof (cases "isRed (left (right h))")
    case False
    then show ?thesis by simp
  next
    case True
    have "setRight (flipRoot h) r \<bind> (\<lambda>h. rotateLeft h \<bind> colorFlip)
        = map_option flipRoot (setRight h r \<bind> (\<lambda>h. rotateLeft h \<bind> colorFlip))" for r
      by (rule bind_flip[OF setRight_flipRoot], rule bind_flip[OF rotateLeft_flipRoot])
        (rule colorFlip_flipRoot)
    with True show ?thesis by (cases "rotateRight (right h)") simp_all
  qed
  then show ?thesis unfolding moveRedLeft_def
    by (intro bind_flip[OF colorFlip_flipRoot])
qed

lemma moveRedRight_flipRoot: "moveRedRight (flipRoot h) = map_option flipRoot (moveRedRight h)"
proof -
  have "(if isRed (left (left (flipRoot h))) then rotateRight (flipRoot h) \<bind> colorFlip
         else Some (flipRoot h))
      = map_option flipRoot (if isRed (left (left h)) then rotateRight h \<bind> colorFlip else Some h)"
    for h :: "'a node"
  proof (cases "isRed (left (left h))")
    case False
    then show ?thesis by simp
  next
    case True
    have "rotateRight (flipRoot h) \<bind> colorFlip = map_option flipRoot (rotateRight h \<bind> colorFlip)"
      by (rule bind_flip[OF rotateRight_flipRoot]) (rule colorFlip_flipRoot)
    with True show ?thesis by simp
  qed
  then show ?thesis unfolding moveRedRight_def
    by (intro bind_flip[OF colorFlip_flipRoot])
qed


lemma finish_flipRoot:
  "fixUp (flipRoot h) \<bind> (\<lambda>h'. Some (h', d, ok)) =
     map_option (apfst flipRoot) (fixUp h \<bind> (\<lambda>h'. Some (h', d, ok)))"
  by (cases "fixUp h") (simp_all add: fixUp_flipRoot)

lemma setLeft_finish_flipRoot:
  "setLeft (flipRoot h) l' \<bind> (\<lambda>h. fixUp h \<bind> (\<lambda>h'. Some (h', d, ok))) =
     map_option (apfst flipRoot) (setLeft h l' \<bind> (\<lambda>h. fixUp h \<bind> (\<lambda>h'. Some (h', d, ok))))"
  by (rule bind_flip[OF setLeft_flipRoot]) (rule finish_flipRoot)

lemma setRight_finish_flipRoot:
  "setRight (flipRoot h) r' \<bind> (\<lambda>h. fixUp h \<bind> (\<lambda>h'. Some (h', d, ok))) =
     map_option (apfst flipRoot) (setRight h r' \<bind> (\<lambda>h. fixUp h \<bind> (\<lambda>h'. Some (h', d, ok))))"
  by (rule bind_flip[OF setRight_flipRoot]) (rule finish_flipRoot)

lemma setRight_setItem_finish_flipRoot:
  "setRight (flipRoot h) r' \<bind> (\<lambda>h1. setItem h1 m \<bind> (\<lambda>h2. fixUp h2 \<bind> (\<lambda>h'. Some (h', d, ok)))) =
     map_option (apfst flipRoot)
       (setRight h r' \<bind> (\<lambda>h1. setItem h1 m \<bind> (\<lambda>h2. fixUp h2 \<bind> (\<lambda>h'. Some (h', d, ok)))))"
  by (rule bind_flip[OF setRight_flipRoot], rule bind_flip[OF setItem_flipRoot])
    (rule finish_flipRoot)

lemma deleteMin_flipRoot:
  "deleteMin z (flipRoot h) = map_option (apfst flipRoot) (deleteMin z h)"
proof (cases h)
  case Null
  then show ?thesis by (simp add: deleteMin.simps)
next
  case (Node x l r c)
  show ?thesis
  proof (cases "l = Null")
    case True
    with Node show ?thesis by (simp add: deleteMin.simps)
  next
    case False
    have m: "(if \<not> isRed l \<and> \<not> isRed (left l) then moveRedLeft (Node x l r (\<not> c))
          else Some (Node x l r (\<not> c)))
        = map_option flipRoot (if \<not> isRed l \<and> \<not> isRed (left l) then moveRedLeft (Node x l r c)
          else Some (Node x l r c))"
      using moveRedLeft_flipRoot[of "Node x l r c"] by simp
    have k: "deleteMin z (left (flipRoot h)) \<bind>
          (\<lambda>(l', deleted, ok). setLeft (flipRoot h) l' \<bind> (\<lambda>h. fixUp h \<bind> (\<lambda>h'. Some (h', deleted, ok))))
        = map_option (apfst flipRoot) (deleteMin z (left h) \<bind>
          (\<lambda>(l', deleted, ok). setLeft h l' \<bind> (\<lambda>h. fixUp h \<bind> (\<lambda>h'. Some (h', deleted, ok)))))"
      for h :: "'a node"
      by (cases "deleteMin z (left h)") (auto simp: setLeft_finish_flipRoot)
    show ?thesis unfolding Node flipRoot.simps deleteMin.simps using False
      by (simp only: if_False) (rule bind_flip[OF m], rule k)
  qed
qed

lemma deleteMax_flipRoot:
  "deleteMax z (flipRoot h) = map_option (apfst flipRoot) (deleteMax z h)"
proof (cases h)
  case Null
  then show ?thesis by (simp add: deleteMax.simps)
next
  case (Node x l r c)
  have m0: "(if isRed l then rotateRight (Node x l r (\<not> c)) else Some (Node x l r (\<not> c)))
      = map_option flipRoot (if isRed l then rotateRight (Node x l r c) else Some (Node x l r c))"
    using rotateRight_flipRoot[of "Node x l r c"] by simp
  have m1: "(if \<not> isRed (right h) \<and> \<not> isRed (left (right h))
        then moveRedRight (flipRoot h) else Some (flipRoot h))
      = map_option flipRoot (if \<not> isRed (right h) \<and> \<not> isRed (left (right h))
        then moveRedRight h else Some h)" for h :: "'a node"
    by (simp add: moveRedRight_flipRoot)
  have k: "deleteMax z (right (flipRoot h)) \<bind>
        (\<lambda>(r', deleted, ok). setRight (flipRoot h) r' \<bind> (\<lambda>h. fixUp h \<bind> (\<lambda>h'. Some (h', deleted, ok))))
      = map_option (apfst flipRoot) (deleteMax z (right h) \<bind>
        (\<lambda>(r', deleted, ok). setRight h r' \<bind> (\<lambda>h. fixUp h \<bind> (\<lambda>h'. Some (h', deleted, ok)))))"
    for h :: "'a node"
    by (cases "deleteMax z (right h)") (auto simp: setRight_finish_flipRoot)
  have body: "(if right (flipRoot h) = Null then Some (Null, item (flipRoot h), True)
        else (if \<not> isRed (right (flipRoot h)) \<and> \<not> isRed (left (right (flipRoot h)))
              then moveRedRight (flipRoot h) else Some (flipRoot h)) \<bind>
             (\<lambda>h. deleteMax z (right h) \<bind>
               (\<lambda>(r', deleted, ok). setRight h r' \<bind> (\<lambda>h. fixUp h \<bind> (\<lambda>h'. Some (h', deleted, ok))))))
      = map_option (apfst flipRoot) (if right h = Null then Some (Null, item h, True)
        else (if \<not> isRed (right h) \<and> \<not> isRed (left (right h)) then moveRedRight h else Some h) \<bind>
             (\<lambda>h. deleteMax z (right h) \<bind>
               (\<lambda>(r', deleted, ok). setRight h r' \<bind> (\<lambda>h. fixUp h \<bind> (\<lambda>h'. Some (h', deleted, ok))))))"
    for h :: "'a node"
  proof (cases "right h = Null")
    case True
    then show ?thesis by simp
  next
    case False
    then show ?thesis by (simp only: flipRoot_simps if_False) (rule bind_flip[OF m1], rule k)
  qed
  show ?thesis unfolding Node flipRoot.simps deleteMax.simps
    by (rule bind_flip[OF m0]) (rule body)
qed


lemma delete_flipRoot:
  "delete cmpo z (flipRoot h) k = map_option (apfst flipRoot) (delete cmpo z h k)"
proof (cases h)
  case Null
  then show ?thesis by (simp add: delete.simps)
next
  case (Node y l r c)
  let ?left = "\<lambda>h. delete cmpo z (left h) k \<bind>
      (\<lambda>(l', deleted, ok). setLeft h l' \<bind> (\<lambda>h. fixUp h \<bind> (\<lambda>h'. Some (h', deleted, ok))))"
  let ?here = "\<lambda>h. deleteMin z (right h) \<bind>
      (\<lambda>(r', rightMin, _). setRight h r' \<bind> (\<lambda>h1. setItem h1 rightMin \<bind>
         (\<lambda>h2. fixUp h2 \<bind> (\<lambda>h'. Some (h', item h, True)))))"
  let ?down = "\<lambda>h. delete cmpo z (right h) k \<bind>
      (\<lambda>(r', deleted, ok). setRight h r' \<bind> (\<lambda>h. fixUp h \<bind> (\<lambda>h'. Some (h', deleted, ok))))"
  let ?third = "\<lambda>h. callCompare cmpo k (item h) \<bind> (\<lambda>c3. if c3 = 0 then ?here h else ?down h)"
  let ?move = "\<lambda>h. if right h \<noteq> Null \<and> \<not> isRed (right h) \<and> \<not> isRed (left (right h))
      then moveRedRight h else Some h"
  let ?second = "\<lambda>h. callCompare cmpo k (item h) \<bind>
      (\<lambda>c2. if c2 = 0 \<and> right h = Null then Some (Null, item h, True) else ?move h \<bind> ?third)"
  have left: "?left (flipRoot h) = map_option (apfst flipRoot) (?left h)" for h :: "'a node"
    by (cases "delete cmpo z (left h) k") (auto simp: setLeft_finish_flipRoot)
  have here: "?here (flipRoot h) = map_option (apfst flipRoot) (?here h)" for h :: "'a node"
    by (cases "deleteMin z (right h)") (auto simp: setRight_setItem_finish_flipRoot)
  have down: "?down (flipRoot h) = map_option (apfst flipRoot) (?down h)" for h :: "'a node"
    by (cases "delete cmpo z (right h) k") (auto simp: setRight_finish_flipRoot)
  have third: "?third (flipRoot h) = map_option (apfst flipRoot) (?third h)" for h :: "'a node"
  proof (cases "callCompare cmpo k (item h)")
    case None
    then show ?thesis by simp
  next
    case (Some c3)
    then show ?thesis using here[of h] down[of h] by (cases "c3 = 0") simp_all
  qed
  have move: "?move (flipRoot h) = map_option flipRoot (?move h)" for h :: "'a node"
    by (simp add: moveRedRight_flipRoot)
  have second: "?second (flipRoot h) = map_option (apfst flipRoot) (?second h)" for h :: "'a node"
  proof (cases "callCompare cmpo k (item h)")
    case None
    then show ?thesis by simp
  next
    case (Some c2)
    have "?move (flipRoot h) \<bind> ?third = map_option (apfst flipRoot) (?move h \<bind> ?third)"
      by (rule bind_flip[OF move]) (rule third)
    with Some show ?thesis by (cases "c2 = 0 \<and> right h = Null") auto
  qed
  have mleft: "(if \<not> isRed l \<and> \<not> isRed (left l) then moveRedLeft (Node y l r (\<not> c))
        else Some (Node y l r (\<not> c)))
      = map_option flipRoot (if \<not> isRed l \<and> \<not> isRed (left l) then moveRedLeft (Node y l r c)
        else Some (Node y l r c))"
    using moveRedLeft_flipRoot[of "Node y l r c"] by simp
  have rot: "(if isRed l then rotateRight (Node y l r (\<not> c)) else Some (Node y l r (\<not> c)))
      = map_option flipRoot (if isRed l then rotateRight (Node y l r c) else Some (Node y l r c))"
    using rotateRight_flipRoot[of "Node y l r c"] by simp
  show ?thesis
  proof (cases "callCompare cmpo k y")
    case None
    with Node show ?thesis by (simp add: delete.simps)
  next
    case (Some c1)
    show ?thesis
    proof (cases "c1 < 0")
      case True
      have "(if \<not> isRed l \<and> \<not> isRed (left l) then moveRedLeft (Node y l r (\<not> c))
            else Some (Node y l r (\<not> c))) \<bind> ?left
          = map_option (apfst flipRoot) ((if \<not> isRed l \<and> \<not> isRed (left l)
            then moveRedLeft (Node y l r c) else Some (Node y l r c)) \<bind> ?left)"
        by (rule bind_flip[OF mleft]) (rule left)
      with Some True Node show ?thesis by (cases "l = Null") (simp_all add: delete.simps)
    next
      case False
      have "(if isRed l then rotateRight (Node y l r (\<not> c)) else Some (Node y l r (\<not> c))) \<bind> ?second
          = map_option (apfst flipRoot)
              ((if isRed l then rotateRight (Node y l r c) else Some (Node y l r c)) \<bind> ?second)"
        by (rule bind_flip[OF rot]) (rule second)
      with Some False Node show ?thesis by (simp add: delete.simps)
    qed
  qed
qed


lemma count_inorder: "count h = length (inorder h)"
  by (induction h) auto

lemma blackenRoot_simps [simp]:
  "inorder (blackenRoot h) = inorder h" "balanced (blackenRoot h) = balanced h"
  "\<not> isRed (blackenRoot h)" "count (blackenRoot h) = count h"
  by (cases h; simp)+

lemma setColor_black: "h \<noteq> Null \<Longrightarrow> setColor h black = Some (blackenRoot h)"
  by (cases h) auto

lemma sorted_del_list:
  "sorted_wrt P xs \<Longrightarrow> sorted_wrt P (del_list cmp k xs)"
proof (induction xs)
  case Nil
  then show ?case by simp
next
  case (Cons y ys)
  have "set (del_list cmp k ys) \<subseteq> set ys" by (induction ys) auto
  with Cons show ?case by auto
qed

lemma length_del_list:
  "int (length (del_list cmp k xs)) =
     int (length xs) - (if snd (find_list cmp z k xs) then 1 else 0)"
  by (induction xs) auto

lemma del_list_absent: "\<forall>e\<in>set xs. cmp k e \<noteq> 0 \<Longrightarrow> del_list cmp k xs = xs"
  by (induction xs) auto

lemma length_ins_list:
  assumes "total_order cmp" "sorted_wrt (\<lambda>a b. cmp a b < 0) xs"
  shows "int (length (ins_list cmp x xs)) =
     int (length xs) + (if snd (find_list cmp z x xs) then 0 else 1)"
proof (cases "\<exists>e\<in>set xs. cmp x e = 0")
  case True
  from find_list_found[of xs cmp x z] True have "snd (find_list cmp z x xs)" by auto
  moreover from ins_list_replace[of cmp xs x] assms True
  have "length (ins_list cmp x xs) = length xs" by simp
  ultimately show ?thesis by simp
next
  case False
  then have abs: "\<forall>e\<in>set xs. cmp x e \<noteq> 0" by blast
  from find_list_absent[of xs cmp x z] abs have "\<not> snd (find_list cmp z x xs)" by simp
  moreover from ins_list_new[of xs cmp x] abs obtain as bs where
    "xs = as @ bs" "ins_list cmp x xs = as @ x # bs" by blast
  then have "length (ins_list cmp x xs) = Suc (length xs)" by simp
  ultimately show ?thesis by simp
qed

lemma delete_root:
  assumes tot: "total_order cmp" and inv: "llrb h" "balanced h" "\<not> isRed h" "ordered cmp h"
  shows "\<exists>h'. delete (Some cmp) z h k = Some (h', find_list cmp z k (inorder h)) \<and>
     llrb (blackenRoot h') \<and> balanced h' \<and> inorder h' = del_list cmp k (inorder h)"
proof (cases h)
  case Null
  then show ?thesis by (simp add: delete_Null)
next
  case (Node y l r c)
  with inv have c: "\<not> c" and sub: "llrb l" "llrb r" "\<not> isRed r" by auto
  show ?thesis
  proof (cases "isRed l")
    case True
    from delete_inv[OF tot, of h k z] inv Node c sub True obtain h' where
      "delete (Some cmp) z h k = Some (h', find_list cmp z k (inorder h))" "llrb h'"
      "balanced h'" "inorder h' = del_list cmp k (inorder h)" by auto
    then show ?thesis by (auto intro: llrb_blackenRoot)
  next
    case False
    let ?h = "Node y l r red"
    have "dshape ?h" "balanced ?h" "ordered cmp ?h" "keyok cmp k ?h"
      using inv Node sub False by (auto simp: ordered_def)
    from delete_inv[OF tot this, of z] obtain h' where
      h': "delete (Some cmp) z ?h k = Some (h', find_list cmp z k (inorder ?h))" "llrb h'"
      "balanced h'" "inorder h' = del_list cmp k (inorder ?h)" by auto
    have "h = flipRoot ?h" using Node c by simp
    then have "delete (Some cmp) z h k = Some (flipRoot h', find_list cmp z k (inorder ?h))"
      using h'(1) by (simp only: delete_flipRoot) simp
    moreover have "llrb (blackenRoot (flipRoot h'))" "balanced (flipRoot h')"
      "inorder (flipRoot h') = del_list cmp k (inorder ?h)"
      using h' llrb_blackenRoot[of h'] by (cases h'; simp)+
    ultimately show ?thesis using Node by auto
  qed
qed

lemma deleteMin_root:
  assumes ne: "h \<noteq> Null" and inv: "llrb h" "balanced h" "\<not> isRed h"
  shows "\<exists>h' d. deleteMin z h = Some (h', d, True) \<and>
     llrb (blackenRoot h') \<and> balanced h' \<and> inorder h = d # inorder h'"
proof -
  from ne obtain y l r c where Node: "h = Node y l r c" by (cases h) auto
  with inv have c: "\<not> c" and sub: "llrb l" "llrb r" "\<not> isRed r" by auto
  show ?thesis
  proof (cases "isRed l")
    case True
    from deleteMin_inv[of h z] inv Node c sub True obtain h' d where
      "deleteMin z h = Some (h', d, True)" "llrb h'"
      "balanced h'" "inorder h = d # inorder h'" by auto
    then show ?thesis by (auto intro: llrb_blackenRoot)
  next
    case False
    let ?h = "Node y l r red"
    have "?h \<noteq> Null" "dshape ?h" "\<not> isRed (right ?h)" "balanced ?h"
      using inv Node sub False by auto
    from deleteMin_inv[OF this, of z] obtain h' d where
      h': "deleteMin z ?h = Some (h', d, True)" "llrb h'"
      "balanced h'" "inorder ?h = d # inorder h'" by auto
    have "h = flipRoot ?h" using Node c by simp
    then have "deleteMin z h = Some (flipRoot h', d, True)"
      using h'(1) by (simp only: deleteMin_flipRoot) simp
    moreover have "llrb (blackenRoot (flipRoot h'))" "balanced (flipRoot h')"
      "inorder ?h = d # inorder (flipRoot h')"
      using h' llrb_blackenRoot[of h'] by (cases h'; simp)+
    ultimately show ?thesis using Node by auto
  qed
qed

lemma deleteMax_root:
  assumes ne: "h \<noteq> Null" and inv: "llrb h" "balanced h" "\<not> isRed h"
  shows "\<exists>h' d. deleteMax z h = Some (h', d, True) \<and>
     llrb (blackenRoot h') \<and> balanced h' \<and> inorder h = inorder h' @ [d]"
proof -
  from ne obtain y l r c where Node: "h = Node y l r c" by (cases h) auto
  with inv have c: "\<not> c" and sub: "llrb l" "llrb r" "\<not> isRed r" by auto
  show ?thesis
  proof (cases "isRed l")
    case True
    from deleteMax_inv[of h z] inv Node c sub True obtain h' d where
      "deleteMax z h = Some (h', d, True)" "llrb h'"
      "balanced h'" "inorder h = inorder h' @ [d]" by auto
    then show ?thesis by (auto intro: llrb_blackenRoot)
  next
    case False
    let ?h = "Node y l r red"
    have "?h \<noteq> Null" "dshape ?h" "balanced ?h"
      using inv Node sub False by auto
    from deleteMax_inv[OF this, of z] obtain h' d where
      h': "deleteMax z ?h = Some (h', d, True)" "llrb h'"
      "balanced h'" "inorder ?h = inorder h' @ [d]" by auto
    have "h = flipRoot ?h" using Node c by simp
    then have "deleteMax z h = Some (flipRoot h', d, True)"
      using h'(1) by (simp only: deleteMax_flipRoot) simp
    moreover have "llrb (blackenRoot (flipRoot h'))" "balanced (flipRoot h')"
      "inorder ?h = inorder (flipRoot h') @ [d]"
      using h' llrb_blackenRoot[of h'] by (cases h'; simp)+
    ultimately show ?thesis using Node by auto
  qed
qed

subsection \<open>Invariants of the public operations\<close>

lemma llrb_red_right_free: "llrb h \<Longrightarrow> red_right_free h"
  by (induction h) auto

lemma llrb_red_left_chain_free: "llrb h \<Longrightarrow> red_left_chain_free h"
  by (induction h) auto

lemma balanced_blackDepths: "balanced h \<Longrightarrow> blackDepths h = {bh h}"
  by (induction h) auto

lemma tree_inv_llrb_invariants: "tree_inv cmp t \<Longrightarrow> llrb_invariants (root t)"
  by (auto simp: tree_inv_def llrb_invariants_def llrb_red_right_free llrb_red_left_chain_free
      balanced_blackDepths)

lemma ordered_bst: "total_order cmp \<Longrightarrow> ordered cmp h = bst cmp h"
proof (induction h)
  case Null
  then show ?case by (simp add: ordered_def)
next
  case (Node x l r c)
  have flip: "(0 < cmp b x) = (cmp x b < 0)" for b
    using cmp_flip[OF Node.prems, of x b] by simp
  have "\<forall>a\<in>set (inorder l). \<forall>b\<in>set (inorder r). cmp a b < 0"
    if "\<forall>a\<in>set (inorder l). cmp a x < 0" "\<forall>b\<in>set (inorder r). cmp x b < 0"
    using that cmp_lt_le_trans[OF Node.prems, of _ x] by fastforce
  with Node show ?case
    by (auto simp: ordered_def sorted_wrt_append flip)
qed

lemma Get_loop_find:
  assumes tot: "total_order cmp"
  shows "ordered cmp h \<Longrightarrow> Get_loop (Some cmp) z h x = Some (find_list cmp z x (inorder h))"
proof (induction h)
  case Null
  then show ?case by simp
next
  case (Node y l r c)
  from Node.prems have ord: "\<forall>a\<in>set (inorder l). cmp a y < 0" "\<forall>b\<in>set (inorder r). cmp y b < 0"
    "ordered cmp l" "ordered cmp r"
    by (auto simp: ordered_def dest: sorted_wrt_mid)
  consider (eq) "cmp x y = 0" | (lt) "cmp x y < 0" | (gt) "0 < cmp x y" by linarith
  then show ?case
  proof cases
    case eq
    with ord tot show ?thesis by (simp add: find_list_here)
  next
    case lt
    with ord tot Node.IH(1) show ?thesis by (simp add: find_list_left)
  next
    case gt
    with ord tot Node.IH(2) show ?thesis by (simp add: find_list_right)
  qed
qed

lemma find_list_self:
  "total_order cmp \<Longrightarrow> sorted_wrt (\<lambda>a b. cmp a b < 0) xs \<Longrightarrow> e \<in> set xs \<Longrightarrow>
   find_list cmp z e xs = (e, True)"
proof (induction xs)
  case Nil
  then show ?case by simp
next
  case (Cons y ys)
  show ?case
  proof (cases "e = y")
    case True
    with Cons.prems show ?thesis by (simp add: cmp_refl)
  next
    case False
    with Cons.prems have "e \<in> set ys" "cmp y e < 0" by auto
    then have "0 < cmp e y" using cmp_flip[OF Cons.prems(1), of y e] by simp
    with Cons \<open>e \<in> set ys\<close> show ?thesis by simp
  qed
qed

lemma tree_inv_New: "total_order cmp \<Longrightarrow> tree_inv cmp (NewLLRBTree (Some cmp))"
  by (simp add: tree_inv_def NewLLRBTree_def ordered_def)

lemma tree_inv_Clear: "tree_inv cmp t \<Longrightarrow> tree_inv cmp (Clear t)"
  by (simp add: tree_inv_def Clear_def ordered_def)

lemma ReplaceOrInsert_inv:
  assumes inv: "tree_inv cmp t"
  shows "\<exists>t'. ReplaceOrInsert z t x = Some (t', find_list cmp z x (inorder (root t))) \<and>
     tree_inv cmp t' \<and> inorder (root t') = ins_list cmp x (inorder (root t))"
proof -
  let ?xs = "inorder (root t)"
  from inv have cmp: "compare t = Some cmp" and tot: "total_order cmp"
    and ord: "ordered cmp (root t)" and str: "llrb (root t)" "balanced (root t)"
    and len: "len t = int (count (root t))" by (auto simp: tree_inv_def)
  from insert_node_correct[OF tot ord, of z x] obtain h' where
    h': "insert_node (Some cmp) z (root t) x = Some (h', find_list cmp z x ?xs)"
      "inorder h' = ins_list cmp x ?xs" "h' \<noteq> Null" by auto
  from insert_node_llrb[OF str, of cmp z x] h'(1) have s': "balanced h'" "llrb (blackenRoot h')"
    by auto
  obtain prev exist where f: "find_list cmp z x ?xs = (prev, exist)" by force
  define t' where "t' = t\<lparr>root := blackenRoot h', len := (if \<not> exist then len t + 1 else len t)\<rparr>"
  have run: "ReplaceOrInsert z t x = Some (t', find_list cmp z x ?xs)"
    using h'(1,3) f cmp by (simp add: ReplaceOrInsert_def t'_def setColor_black)
  have "int (length (ins_list cmp x ?xs)) = int (length ?xs) + (if exist then 0 else 1)"
    using length_ins_list[OF tot, of ?xs x z] ord f by (simp add: ordered_def)
  then have "len t' = int (count (root t'))"
    using len h'(2) by (simp add: t'_def count_inorder)
  moreover have "ordered cmp (root t')"
    using ord tot h'(2) by (simp add: t'_def ordered_def sorted_ins_list)
  ultimately have "tree_inv cmp t'"
    using cmp tot s' by (simp add: tree_inv_def t'_def)
  with run h'(2) show ?thesis by (auto simp: t'_def)
qed

lemma Delete_inv:
  assumes inv: "tree_inv cmp t"
  shows "\<exists>t'. Delete z t k = Some (t', find_list cmp z k (inorder (root t))) \<and>
     tree_inv cmp t' \<and> inorder (root t') = del_list cmp k (inorder (root t))"
proof -
  let ?xs = "inorder (root t)"
  from inv have cmp: "compare t = Some cmp" and tot: "total_order cmp"
    and ord: "ordered cmp (root t)" and str: "llrb (root t)" "balanced (root t)" "\<not> isRed (root t)"
    and len: "len t = int (count (root t))" by (auto simp: tree_inv_def)
  from delete_root[OF tot str ord, of z k] obtain h' where
    h': "delete (Some cmp) z (root t) k = Some (h', find_list cmp z k ?xs)"
      "llrb (blackenRoot h')" "balanced h'" "inorder h' = del_list cmp k ?xs" by auto
  obtain d ok where f: "find_list cmp z k ?xs = (d, ok)" by force
  define t' where "t' = t\<lparr>root := blackenRoot h', len := (if ok then len t - 1 else len t)\<rparr>"
  have run: "Delete z t k = Some (t', find_list cmp z k ?xs)"
    using h'(1) f cmp by (simp add: Delete_def t'_def)
  have "int (length (del_list cmp k ?xs)) = int (length ?xs) - (if ok then 1 else 0)"
    using length_del_list[of cmp k ?xs z] f by simp
  then have "len t' = int (count (root t'))"
    using len h'(4) by (simp add: t'_def count_inorder)
  moreover have "ordered cmp (root t')"
    using ord h'(4) by (simp add: t'_def ordered_def sorted_del_list)
  ultimately have "tree_inv cmp t'"
    using cmp tot h' by (simp add: tree_inv_def t'_def)
  with run h'(4) show ?thesis by (auto simp: t'_def)
qed

lemma DeleteMin_empty: "root t = Null \<Longrightarrow> DeleteMin z t = Some (t, z, False)"
  by (simp add: DeleteMin_def deleteMin.simps)

lemma DeleteMax_empty: "root t = Null \<Longrightarrow> DeleteMax z t = Some (t, z, False)"
  by (simp add: DeleteMax_def deleteMax.simps)

lemma DeleteMin_inv:
  assumes inv: "tree_inv cmp t" and ne: "root t \<noteq> Null"
  shows "\<exists>t' d. DeleteMin z t = Some (t', d, True) \<and> tree_inv cmp t' \<and>
     inorder (root t) = d # inorder (root t')"
proof -
  from inv have cmp: "compare t = Some cmp" and tot: "total_order cmp"
    and ord: "ordered cmp (root t)" and str: "llrb (root t)" "balanced (root t)" "\<not> isRed (root t)"
    and len: "len t = int (count (root t))" by (auto simp: tree_inv_def)
  from deleteMin_root[OF ne str, of z] obtain h' d where
    h': "deleteMin z (root t) = Some (h', d, True)"
      "llrb (blackenRoot h')" "balanced h'" "inorder (root t) = d # inorder h'" by auto
  define t' where "t' = t\<lparr>root := blackenRoot h', len := len t - 1\<rparr>"
  have run: "DeleteMin z t = Some (t', d, True)"
    using h'(1) by (simp add: DeleteMin_def t'_def)
  have "len t' = int (count (root t'))"
    using len h'(4) by (simp add: t'_def count_inorder)
  moreover have "ordered cmp (root t')"
    using ord h'(4) by (simp add: t'_def ordered_def)
  ultimately have "tree_inv cmp t'"
    using cmp tot h' by (simp add: tree_inv_def t'_def)
  with run h'(4) show ?thesis by (auto simp: t'_def)
qed

lemma DeleteMax_inv:
  assumes inv: "tree_inv cmp t" and ne: "root t \<noteq> Null"
  shows "\<exists>t' d. DeleteMax z t = Some (t', d, True) \<and> tree_inv cmp t' \<and>
     inorder (root t) = inorder (root t') @ [d]"
proof -
  from inv have cmp: "compare t = Some cmp" and tot: "total_order cmp"
    and ord: "ordered cmp (root t)" and str: "llrb (root t)" "balanced (root t)" "\<not> isRed (root t)"
    and len: "len t = int (count (root t))" by (auto simp: tree_inv_def)
  from deleteMax_root[OF ne str, of z] obtain h' d where
    h': "deleteMax z (root t) = Some (h', d, True)"
      "llrb (blackenRoot h')" "balanced h'" "inorder (root t) = inorder h' @ [d]" by auto
  define t' where "t' = t\<lparr>root := blackenRoot h', len := len t - 1\<rparr>"
  have run: "DeleteMax z t = Some (t', d, True)"
    using h'(1) by (simp add: DeleteMax_def t'_def)
  have "len t' = int (count (root t'))"
    using len h'(4) by (simp add: t'_def count_inorder)
  moreover have "ordered cmp (root t')"
    using ord h'(4) by (simp add: t'_def ordered_def sorted_wrt_append)
  ultimately have "tree_inv cmp t'"
    using cmp tot h' by (simp add: tree_inv_def t'_def)
  with run h'(4) show ?thesis by (auto simp: t'_def)
qed

lemma apply_mutation_inv:
  assumes "tree_inv cmp t"
  shows "\<exists>t'. apply_mutation z t m = Some t' \<and> tree_inv cmp t'"
proof (cases m)
  case (DoReplaceOrInsert x)
  with ReplaceOrInsert_inv[OF assms, of z x] show ?thesis by auto
next
  case (DoDelete x)
  with Delete_inv[OF assms, of z x] show ?thesis by auto
next
  case DoDeleteMin
  show ?thesis
  proof (cases "root t = Null")
    case True
    with DoDeleteMin assms show ?thesis by (simp add: DeleteMin_empty)
  next
    case False
    with DeleteMin_inv[OF assms, of z] DoDeleteMin show ?thesis by auto
  qed
next
  case DoDeleteMax
  show ?thesis
  proof (cases "root t = Null")
    case True
    with DoDeleteMax assms show ?thesis by (simp add: DeleteMax_empty)
  next
    case False
    with DeleteMax_inv[OF assms, of z] DoDeleteMax show ?thesis by auto
  qed
next
  case DoClear
  with tree_inv_Clear[OF assms] show ?thesis by simp
qed

lemma apply_mutations_inv:
  "tree_inv cmp t \<Longrightarrow> \<exists>t'. apply_mutations z t ms = Some t' \<and> tree_inv cmp t'"
proof (induction ms arbitrary: t)
  case Nil
  then show ?case by simp
next
  case (Cons m ms)
  from apply_mutation_inv[OF Cons.prems, of z m] obtain t1 where
    "apply_mutation z t m = Some t1" "tree_inv cmp t1" by blast
  with Cons.IH[of t1] show ?case by simp
qed

lemma tree_inv_tree_2143: "tree_inv int_compare tree_2143"
  by (simp add: tree_inv_def tree_2143_def ordered_def int_compare_def total_order_int_compare)

lemmas eval_simps = NewLLRBTree_def ReplaceOrInsert_def Delete_def DeleteMin_def DeleteMax_def
  Clear_def Len_def Get_def newNode_def int_compare_def fixUp.simps moveRedLeft_def
  moveRedRight_def delete.simps deleteMin.simps deleteMax.simps

section \<open>Claims\<close>

text \<open>
  C1. On a tree ordered by a total-order comparator, \<^verbatim>\<open>ReplaceOrInsert\<close> does not panic and
  returns a tree whose root is black. If a stored element compares equal to the
  item, it returns that element and \<open>True\<close>, \<open>Len\<close> is unchanged, and the sequence of
  stored elements is the old one with that element replaced by the item. Otherwise
  it returns the zero value and \<open>False\<close>, \<open>Len\<close> grows by one, and the item has been
  added to the sequence of stored elements.
\<close>

theorem ReplaceOrInsert_contract:
  assumes cmp: "compare t = Some cmp" and tot: "total_order cmp" and ord: "ordered cmp (root t)"
  shows "\<exists>t' prev exist.
     ReplaceOrInsert z t x = Some (t', prev, exist) \<and>
     root t' \<noteq> Null \<and> \<not> isRed (root t') \<and> ordered cmp (root t') \<and>
     ((\<exists>e\<in>set (inorder (root t)). cmp x e = 0) \<longrightarrow>
        exist \<and> prev \<in> set (inorder (root t)) \<and> cmp x prev = 0 \<and> Len t' = Len t \<and>
        inorder (root t') = map (\<lambda>y. if cmp x y = 0 then x else y) (inorder (root t))) \<and>
     (\<not> (\<exists>e\<in>set (inorder (root t)). cmp x e = 0) \<longrightarrow>
        \<not> exist \<and> prev = z \<and> Len t' = Len t + 1 \<and>
        (\<exists>as bs. inorder (root t) = as @ bs \<and> inorder (root t') = as @ x # bs))"
proof -
  let ?xs = "inorder (root t)"
  from insert_node_correct[OF tot ord, of z x] obtain h' where
    h': "insert_node (Some cmp) z (root t) x = Some (h', find_list cmp z x ?xs)"
      "inorder h' = ins_list cmp x ?xs" "h' \<noteq> Null" by auto
  obtain y l r c where node: "h' = Node y l r c" using h'(3) by (cases h') auto
  obtain prev exist where f: "find_list cmp z x ?xs = (prev, exist)" by force
  define t' where "t' = t\<lparr>root := Node y l r black, len := (if \<not> exist then len t + 1 else len t)\<rparr>"
  have run: "ReplaceOrInsert z t x = Some (t', prev, exist)"
    using h'(1) node f cmp by (simp add: ReplaceOrInsert_def t'_def)
  have io: "inorder (root t') = ins_list cmp x ?xs"
    using h'(2) node by (simp add: t'_def)
  have o': "ordered cmp (root t')"
    using ord tot io by (simp add: ordered_def sorted_ins_list)
  have shape: "root t' \<noteq> Null \<and> \<not> isRed (root t')" by (simp add: t'_def)
  have found: "exist \<and> prev \<in> set ?xs \<and> cmp x prev = 0 \<and> Len t' = Len t \<and>
      inorder (root t') = map (\<lambda>y. if cmp x y = 0 then x else y) ?xs"
    if ex: "\<exists>e\<in>set ?xs. cmp x e = 0"
  proof -
    from find_list_found[of ?xs cmp x z] ex f
    have e: "exist" "prev \<in> set ?xs" "cmp x prev = 0" by auto
    moreover have "inorder (root t') = map (\<lambda>y. if cmp x y = 0 then x else y) ?xs"
      using io ins_list_replace[of cmp ?xs x] tot ex ord by (simp add: ordered_def)
    moreover have "Len t' = Len t" using e(1) by (simp add: Len_def t'_def)
    ultimately show ?thesis by blast
  qed
  have absent: "\<not> exist \<and> prev = z \<and> Len t' = Len t + 1 \<and>
      (\<exists>as bs. ?xs = as @ bs \<and> inorder (root t') = as @ x # bs)"
    if nex: "\<not> (\<exists>e\<in>set ?xs. cmp x e = 0)"
  proof -
    from nex have abs: "\<forall>e\<in>set ?xs. cmp x e \<noteq> 0" by blast
    from find_list_absent[of ?xs cmp x z] abs f have ne: "\<not> exist" "prev = z" by auto
    from ins_list_new[of ?xs cmp x] abs io
    have "\<exists>as bs. ?xs = as @ bs \<and> inorder (root t') = as @ x # bs" by simp
    moreover have "Len t' = Len t + 1" using ne by (simp add: Len_def t'_def)
    ultimately show ?thesis using ne by blast
  qed
  from run shape o' found absent show ?thesis by blast
qed

theorem ReplaceOrInsert_contract_witness:
  "compare tree_12 = Some int_compare \<and> total_order int_compare \<and>
   ordered int_compare (root tree_12) \<and>
   (\<exists>t'. ReplaceOrInsert 0 tree_12 3 = Some (t', 0, False) \<and> Len t' = 3 \<and> \<not> isRed (root t')) \<and>
   (\<exists>t'. ReplaceOrInsert 0 tree_12 2 = Some (t', 2, True) \<and> Len t' = 2 \<and> \<not> isRed (root t'))"
proof -
  have c: "compare tree_12 = Some int_compare" by (simp add: tree_12_def)
  have o: "ordered int_compare (root tree_12)"
    by (simp add: tree_12_def ordered_def int_compare_def)
  have e3: "\<not> (\<exists>e\<in>set (inorder (root tree_12)). int_compare 3 e = 0)"
    by (simp add: tree_12_def int_compare_def)
  have e2: "\<exists>e\<in>set (inorder (root tree_12)). int_compare 2 e = 0"
    by (simp add: tree_12_def int_compare_def)
  have l: "Len tree_12 = 2" by (simp add: Len_def tree_12_def)
  have p: "\<And>prev. prev \<in> set (inorder (root tree_12)) \<Longrightarrow> int_compare 2 prev = 0 \<Longrightarrow> prev = 2"
    by (auto simp: tree_12_def int_compare_def split: if_splits)
  have "\<exists>t'. ReplaceOrInsert 0 tree_12 3 = Some (t', 0, False) \<and> Len t' = 3 \<and> \<not> isRed (root t')"
  proof -
    from ReplaceOrInsert_contract[OF c total_order_int_compare o, of 0 3]
    obtain t' prev exist where r: "ReplaceOrInsert 0 tree_12 3 = Some (t', prev, exist)"
      "\<not> isRed (root t')" and
      i: "\<not> (\<exists>e\<in>set (inorder (root tree_12)). int_compare 3 e = 0) \<longrightarrow>
            \<not> exist \<and> prev = 0 \<and> Len t' = Len tree_12 + 1 \<and>
            (\<exists>as bs. inorder (root tree_12) = as @ bs \<and> inorder (root t') = as @ 3 # bs)"
      by blast
    from i e3 have "\<not> exist \<and> prev = 0 \<and> Len t' = Len tree_12 + 1" by blast
    with r l show ?thesis by simp
  qed
  moreover
  have "\<exists>t'. ReplaceOrInsert 0 tree_12 2 = Some (t', 2, True) \<and> Len t' = 2 \<and> \<not> isRed (root t')"
  proof -
    from ReplaceOrInsert_contract[OF c total_order_int_compare o, of 0 2]
    obtain t' prev exist where r: "ReplaceOrInsert 0 tree_12 2 = Some (t', prev, exist)"
      "\<not> isRed (root t')" and
      i: "(\<exists>e\<in>set (inorder (root tree_12)). int_compare 2 e = 0) \<longrightarrow>
            exist \<and> prev \<in> set (inorder (root tree_12)) \<and> int_compare 2 prev = 0 \<and>
            Len t' = Len tree_12 \<and>
            inorder (root t') =
              map (\<lambda>y. if int_compare 2 y = 0 then 2 else y) (inorder (root tree_12))"
      by blast
    from i e2 have "exist \<and> prev \<in> set (inorder (root tree_12)) \<and> int_compare 2 prev = 0 \<and>
        Len t' = Len tree_12"
      by blast
    with p have "exist \<and> prev = 2 \<and> Len t' = Len tree_12" by blast
    with r l show ?thesis by simp
  qed
  ultimately show ?thesis using c o total_order_int_compare by blast
qed

text \<open>
  C8. The repository's test \<^verbatim>\<open>TestNewLLRBTree\<close> expects \<^verbatim>\<open>NewLLRBTree[int](nil)\<close> to panic
  with the value \<^verbatim>\<open>"nil compare"\<close>, which is what the specification asks of the
  constructor. \<^verbatim>\<open>NewLLRBTree\<close> as written has no check of its argument: at a nil
  comparator it returns an empty tree, and the first \<^verbatim>\<open>ReplaceOrInsert\<close> on that tree
  succeeds, since inserting at the nil root calls no comparator.
\<close>

theorem NewLLRBTree_nil_comparator:
  "NewLLRBTree (None :: int CompareFunc option) = \<lparr>root = Null, compare = None, len = 0\<rparr> \<and>
   ReplaceOrInsert 0 (NewLLRBTree (None :: int CompareFunc option)) 5 =
     Some (\<lparr>root = Node 5 Null Null black, compare = None, len = 1\<rparr>, 0, False)"
  by (simp add: NewLLRBTree_def ReplaceOrInsert_def newNode_def)

text \<open>
  C7, as stated, fails. The tree built from 2, 1, 4, 3 stores no element equal to 0;
  \<^verbatim>\<open>Delete\<close> of 0 returns the zero value and \<open>False\<close> and keeps \<open>len\<close>, but the tree
  it leaves has another shape: on the way down \<^verbatim>\<open>moveRedLeft\<close> has rotated 3 into the
  root, and \<^verbatim>\<open>fixUp\<close> does not undo a rotation.
\<close>

theorem Delete_absent_restructures:
  "Delete 0 tree_2143 0 =
     Some (\<lparr>root = Node 3 (Node 2 (Node 1 Null Null red) Null black) (Node 4 Null Null black) black,
            compare = Some int_compare, len = 4\<rparr>, 0, False) \<and>
   root tree_2143 = Node 2 (Node 1 Null Null black) (Node 4 (Node 3 Null Null red) Null black) black \<and>
   map (int_compare 0) (inorder (root tree_2143)) = [-1, -1, -1, -1]"
  by (simp add: Delete_def tree_2143_def int_compare_def moveRedLeft_def fixUp.simps delete.simps)

text \<open>
  C4. On a tree whose elements are in strictly increasing comparator order from left
  to right, \<^verbatim>\<open>Ascend\<close> with a predicate that always returns true calls it on every
  stored element, once each, in strictly increasing order, and \<^verbatim>\<open>Descend\<close> calls it on
  the reverse of that sequence.
\<close>

theorem Ascend_Descend_order:
  assumes ord: "ordered cmp (root t)" and always: "\<forall>x s. fst (iter x s)"
  shows "\<exists>s1 calls1 s2 calls2.
     Ascend z t (logging iter) (s, []) = Some (s1, calls1) \<and>
     Descend z t (logging iter) (s, []) = Some (s2, calls2) \<and>
     map fst calls1 = inorder (root t) \<and>
     sorted_wrt (\<lambda>a b. cmp a b < 0) (map fst calls1) \<and>
     map fst calls2 = rev (map fst calls1)"
proof -
  have "Ascend z t (logging iter) (s, []) =
      Some (snd (run iter (inorder (root t)) s), trace iter (inorder (root t)) s)"
    by (simp add: Ascend_def iterate_unbounded_logging)
  moreover have "Descend z t (logging iter) (s, []) =
      Some (snd (run iter (rev (inorder (root t))) s), trace iter (rev (inorder (root t))) s)"
    by (simp add: Descend_def iterate_unbounded_logging)
  moreover have "map fst (trace iter (inorder (root t)) s) = inorder (root t)"
    using always by (rule trace_all)
  moreover have "map fst (trace iter (rev (inorder (root t))) s) = rev (inorder (root t))"
    using always by (rule trace_all)
  ultimately show ?thesis using ord by (simp add: ordered_def)
qed

theorem Ascend_Descend_order_witness:
  "ordered int_compare (root tree_2143) \<and>
   (\<forall>x s. fst ((\<lambda>(x::int) (n::nat). (True, Suc n)) x s)) \<and>
   Ascend 0 tree_2143 (logging (\<lambda>x n. (True, Suc n))) (0, []) =
     Some (4, [(1, True), (2, True), (3, True), (4, True)]) \<and>
   Descend 0 tree_2143 (logging (\<lambda>x n. (True, Suc n))) (0, []) =
     Some (4, [(4, True), (3, True), (2, True), (1, True)])"
  using Ascend_Descend_order[of int_compare tree_2143 "\<lambda>x n. (True, Suc n)" 0 0]
  by (simp add: tree_2143_def ordered_def int_compare_def Ascend_def Descend_def logging_def)



text \<open>
  C6. In every traversal operation, a call of the predicate that returns false is
  the last call: if the call on the k-th visited element returns false, exactly k
  calls are made in total.
\<close>

theorem traversal_early_termination:
  assumes cmp: "compare t = Some cmp"
  shows "\<forall>trav \<in> set [AscendRange t a b, AscendLessThan z t a, AscendGreaterOrEqual z t a,
            Ascend z t, DescendRange t a b, DescendLessOrEqual z t a,
            DescendGreaterThan z t a, Descend z t].
     \<exists>s' calls. trav (logging iter) (s, []) = Some (s', calls) \<and>
       (\<forall>k<length calls. \<not> snd (calls ! k) \<longrightarrow> Suc k = length calls)"
proof -
  have stop: "\<forall>k<length (trace iter xs s). \<not> snd (trace iter xs s ! k) \<longrightarrow>
      Suc k = length (trace iter xs s)" for xs
    using trace_stop[of _ iter xs s] by blast
  show ?thesis
    using stop
    by (simp add: AscendRange_def AscendLessThan_def AscendGreaterOrEqual_def Ascend_def
        DescendRange_def DescendLessOrEqual_def DescendGreaterThan_def Descend_def
        cmp iterate_logging)
qed

theorem traversal_early_termination_witness:
  "compare tree_2143 = Some int_compare \<and>
   Ascend 0 tree_2143 (logging (\<lambda>x n. (x < 2, Suc n))) (0, []) =
     Some (2, [(1, True), (2, False)]) \<and>
   DescendRange tree_2143 4 1 (logging (\<lambda>x n. (x \<noteq> 3, Suc n))) (0, []) =
     Some (2, [(4, True), (3, False)])"
  using traversal_early_termination[of tree_2143 int_compare 4 1 0 "\<lambda>x n. (x < 2, Suc n)" 0]
  by (simp add: tree_2143_def int_compare_def Ascend_def DescendRange_def logging_def)



text \<open>
  C2. Starting from a new tree with a total-order comparator, no sequence of
  \<^verbatim>\<open>ReplaceOrInsert\<close>, \<^verbatim>\<open>Delete\<close>, \<^verbatim>\<open>DeleteMin\<close>, \<^verbatim>\<open>DeleteMax\<close> and \<^verbatim>\<open>Clear\<close> calls panics,
  and the tree it leaves satisfies the LLRB invariants: no red node has a red right
  child, no red node has a red left child whose left child is red, all paths from
  the root to a nil link pass the same number of black nodes, and the root is black.
\<close>

theorem mutations_keep_llrb_invariants:
  assumes "total_order cmp"
  shows "\<exists>t. apply_mutations z (NewLLRBTree (Some cmp)) ms = Some t \<and>
     red_right_free (root t) \<and> red_left_chain_free (root t) \<and>
     (\<exists>d. blackDepths (root t) = {d}) \<and> \<not> isRed (root t)"
proof -
  from apply_mutations_inv[OF tree_inv_New[OF assms], of z ms] obtain t where
    t: "apply_mutations z (NewLLRBTree (Some cmp)) ms = Some t" "tree_inv cmp t" by blast
  from tree_inv_llrb_invariants[OF t(2)] t(1) show ?thesis
    by (auto simp: llrb_invariants_def)
qed

theorem mutations_keep_llrb_invariants_witness:
  "total_order int_compare \<and>
   apply_mutations 0 (NewLLRBTree (Some int_compare))
     [DoReplaceOrInsert 2, DoReplaceOrInsert 1, DoReplaceOrInsert 4, DoReplaceOrInsert 3,
      DoReplaceOrInsert 5, DoDelete 0, DoDeleteMin, DoDelete 3, DoDeleteMax] =
     Some \<lparr>root = Node 4 (Node 2 Null Null red) Null black, compare = Some int_compare, len = 2\<rparr> \<and>
   red_right_free (Node 4 (Node (2::int) Null Null red) Null black) \<and>
   red_left_chain_free (Node 4 (Node (2::int) Null Null red) Null black) \<and>
   blackDepths (Node 4 (Node (2::int) Null Null red) Null black) = {1} \<and>
   \<not> isRed (Node 4 (Node (2::int) Null Null red) Null black)"
  using mutations_keep_llrb_invariants[OF total_order_int_compare, of 0
      "[DoReplaceOrInsert 2, DoReplaceOrInsert 1, DoReplaceOrInsert 4, DoReplaceOrInsert 3,
        DoReplaceOrInsert 5, DoDelete 0, DoDeleteMin, DoDelete 3, DoDeleteMax]"]
    total_order_int_compare
  by (simp add: eval_simps)

text \<open>
  C3. After any sequence of public mutating operations on a new tree, \<^verbatim>\<open>Len\<close> is the
  number of nodes reachable from the root, which is the number of stored elements,
  and no two stored elements compare equal. \<^verbatim>\<open>ReplaceOrInsert\<close> of an element that is
  present and \<^verbatim>\<open>Delete\<close> of one that is absent leave \<^verbatim>\<open>Len\<close> unchanged.
\<close>

theorem Len_counts_stored_elements:
  assumes "total_order cmp"
  shows "\<exists>t. apply_mutations z (NewLLRBTree (Some cmp)) ms = Some t \<and>
     Len t = int (count (root t)) \<and>
     count (root t) = length (inorder (root t)) \<and>
     sorted_wrt (\<lambda>a b. cmp a b \<noteq> 0) (inorder (root t)) \<and>
     (\<forall>x. (\<exists>e\<in>set (inorder (root t)). cmp x e = 0) \<longrightarrow>
        (\<exists>t' prev. ReplaceOrInsert z t x = Some (t', prev, True) \<and> Len t' = Len t)) \<and>
     (\<forall>x. (\<forall>e\<in>set (inorder (root t)). cmp x e \<noteq> 0) \<longrightarrow>
        (\<exists>t'. Delete z t x = Some (t', z, False) \<and> Len t' = Len t))"
proof -
  from apply_mutations_inv[OF tree_inv_New[OF assms], of z ms] obtain t where
    t: "apply_mutations z (NewLLRBTree (Some cmp)) ms = Some t" "tree_inv cmp t" by blast
  let ?xs = "inorder (root t)"
  from t(2) have len: "Len t = int (count (root t))"
    and srt: "sorted_wrt (\<lambda>a b. cmp a b < 0) ?xs"
    by (auto simp: tree_inv_def Len_def ordered_def)
  from srt have ne: "sorted_wrt (\<lambda>a b. cmp a b \<noteq> 0) ?xs"
    by (rule sorted_wrt_mono_rel[rotated]) auto
  have ins: "\<exists>t' prev. ReplaceOrInsert z t x = Some (t', prev, True) \<and> Len t' = Len t"
    if ex: "\<exists>e\<in>set ?xs. cmp x e = 0" for x
  proof -
    from ReplaceOrInsert_inv[OF t(2), of z x] obtain t' where
      t': "ReplaceOrInsert z t x = Some (t', find_list cmp z x ?xs)" "tree_inv cmp t'"
        "inorder (root t') = ins_list cmp x ?xs" by blast
    from find_list_found[of ?xs cmp x z] ex obtain e where f: "find_list cmp z x ?xs = (e, True)"
      by blast
    from ins_list_replace[of cmp ?xs x] assms srt ex t'(3)
    have "length (inorder (root t')) = length ?xs" by simp
    with t'(2) t(2) have "Len t' = Len t" by (simp add: tree_inv_def Len_def count_inorder)
    with t'(1) f show ?thesis by simp
  qed
  have del: "\<exists>t'. Delete z t x = Some (t', z, False) \<and> Len t' = Len t"
    if abs: "\<forall>e\<in>set ?xs. cmp x e \<noteq> 0" for x
  proof -
    from Delete_inv[OF t(2), of z x] obtain t' where
      t': "Delete z t x = Some (t', find_list cmp z x ?xs)" "tree_inv cmp t'"
        "inorder (root t') = del_list cmp x ?xs" by blast
    from t'(3) del_list_absent[where cmp = cmp and k = x and xs = "inorder (root t)"] abs have "inorder (root t') = ?xs" by simp
    with t'(2) t(2) have "Len t' = Len t" by (simp add: tree_inv_def Len_def count_inorder)
    with t'(1) find_list_absent[where cmp = cmp and x = x and xs = "inorder (root t)" and z = z] abs show ?thesis by simp
  qed
  from t(1) len ne ins del show ?thesis by (auto simp: count_inorder)
qed

theorem Len_counts_stored_elements_witness:
  "total_order int_compare \<and>
   apply_mutations 0 (NewLLRBTree (Some int_compare))
     [DoReplaceOrInsert 3, DoReplaceOrInsert 5, DoReplaceOrInsert 1, DoReplaceOrInsert 3,
      DoDelete 7, DoDelete 5] =
     Some \<lparr>root = Node 3 (Node 1 Null Null red) Null black, compare = Some int_compare, len = 2\<rparr> \<and>
   count (Node 3 (Node (1::int) Null Null red) Null black) = 2 \<and>
   inorder (Node 3 (Node (1::int) Null Null red) Null black) = [1, 3]"
  using Len_counts_stored_elements[OF total_order_int_compare, of 0
      "[DoReplaceOrInsert 3, DoReplaceOrInsert 5, DoReplaceOrInsert 1, DoReplaceOrInsert 3,
        DoDelete 7, DoDelete 5]"]
    total_order_int_compare
  by (simp add: eval_simps)

text \<open>
  C7, amended. On a tree that satisfies the invariants (the empty tree included),
  \<^verbatim>\<open>Delete\<close> of an item that no stored element compares equal to returns the zero
  value and \<open>False\<close>, leaves \<^verbatim>\<open>Len\<close> unchanged and leaves the stored elements and their
  order unchanged, and the tree still satisfies the invariants. Its shape may have
  changed.
\<close>

theorem Delete_absent:
  assumes inv: "tree_inv cmp t" and abs: "\<forall>e\<in>set (inorder (root t)). cmp x e \<noteq> 0"
  shows "\<exists>t'. Delete z t x = Some (t', z, False) \<and> Len t' = Len t \<and>
     inorder (root t') = inorder (root t) \<and> tree_inv cmp t' \<and> llrb_invariants (root t')"
proof -
  from Delete_inv[OF inv, of z x] obtain t' where
    t': "Delete z t x = Some (t', find_list cmp z x (inorder (root t)))" "tree_inv cmp t'"
      "inorder (root t') = del_list cmp x (inorder (root t))" by blast
  from t'(3) del_list_absent[where cmp = cmp and k = x and xs = "inorder (root t)"] abs have io: "inorder (root t') = inorder (root t)" by simp
  with t'(2) inv have "Len t' = Len t" by (simp add: tree_inv_def Len_def count_inorder)
  with t'(1,2) io find_list_absent[where cmp = cmp and x = x and xs = "inorder (root t)" and z = z] abs tree_inv_llrb_invariants[OF t'(2)]
  show ?thesis by simp
qed

theorem Delete_absent_witness:
  "tree_inv int_compare tree_2143 \<and>
   map (int_compare 0) (inorder (root tree_2143)) = [-1, -1, -1, -1] \<and>
   (\<exists>t'. Delete 0 tree_2143 0 = Some (t', 0, False) \<and> Len t' = Len tree_2143 \<and>
      inorder (root t') = [1, 2, 3, 4])"
proof -
  have abs: "\<forall>e\<in>set (inorder (root tree_2143)). int_compare 0 e \<noteq> 0"
    by (simp add: tree_2143_def int_compare_def)
  have io: "inorder (root tree_2143) = [1, 2, 3, 4]" by (simp add: tree_2143_def)
  have cs: "map (int_compare 0) (inorder (root tree_2143)) = [-1, -1, -1, -1]"
    by (simp add: tree_2143_def int_compare_def)
  from Delete_absent[OF tree_inv_tree_2143 abs, of 0] io tree_inv_tree_2143 cs
  show ?thesis by auto
qed

text \<open>
  C9. On a tree that satisfies the invariants, every node has only smaller elements
  in its left subtree and only greater ones in its right subtree, and the tree left
  by each public mutating operation has that property again. \<^verbatim>\<open>Get\<close> finds every
  stored element, returns the stored element that compares equal to its argument
  when there is one, and the zero value with \<open>False\<close> otherwise.
\<close>

theorem operations_preserve_bst:
  assumes inv: "tree_inv cmp t"
  shows "bst cmp (root t) \<and>
     (\<exists>t' prev exist. ReplaceOrInsert z t x = Some (t', prev, exist) \<and> bst cmp (root t')) \<and>
     (\<exists>t' deleted ok. Delete z t x = Some (t', deleted, ok) \<and> bst cmp (root t')) \<and>
     (\<exists>t' deleted ok. DeleteMin z t = Some (t', deleted, ok) \<and> bst cmp (root t')) \<and>
     (\<exists>t' deleted ok. DeleteMax z t = Some (t', deleted, ok) \<and> bst cmp (root t')) \<and>
     bst cmp (root (Clear t)) \<and>
     (\<forall>e\<in>set (inorder (root t)). Get z t e = Some (e, True)) \<and>
     ((\<exists>e\<in>set (inorder (root t)). cmp x e = 0) \<longrightarrow>
        (\<exists>e\<in>set (inorder (root t)). cmp x e = 0 \<and> Get z t x = Some (e, True))) \<and>
     ((\<forall>e\<in>set (inorder (root t)). cmp x e \<noteq> 0) \<longrightarrow> Get z t x = Some (z, False))"
proof -
  from inv have cmp: "compare t = Some cmp" and tot: "total_order cmp"
    and ord: "ordered cmp (root t)" by (auto simp: tree_inv_def)
  have b: "bst cmp (root t')" if "tree_inv cmp t'" for t'
    using that ordered_bst[of cmp "root t'"] by (simp add: tree_inv_def)
  have get: "Get z t y = Some (find_list cmp z y (inorder (root t)))" for y
    using Get_loop_find[OF tot ord] by (simp add: Get_def cmp)
  have 1: "\<exists>t' prev exist. ReplaceOrInsert z t x = Some (t', prev, exist) \<and> bst cmp (root t')"
    using ReplaceOrInsert_inv[OF inv, of z x] b
    by (cases "find_list cmp z x (inorder (root t))") auto
  have 2: "\<exists>t' deleted ok. Delete z t x = Some (t', deleted, ok) \<and> bst cmp (root t')"
    using Delete_inv[OF inv, of z x] b
    by (cases "find_list cmp z x (inorder (root t))") auto
  have 3: "\<exists>t' deleted ok. DeleteMin z t = Some (t', deleted, ok) \<and> bst cmp (root t')"
  proof (cases "root t = Null")
    case True
    with b[OF inv] show ?thesis by (auto simp: DeleteMin_empty)
  next
    case False
    with DeleteMin_inv[OF inv, of z] b show ?thesis by blast
  qed
  have 4: "\<exists>t' deleted ok. DeleteMax z t = Some (t', deleted, ok) \<and> bst cmp (root t')"
  proof (cases "root t = Null")
    case True
    with b[OF inv] show ?thesis by (auto simp: DeleteMax_empty)
  next
    case False
    with DeleteMax_inv[OF inv, of z] b show ?thesis by blast
  qed
  have 5: "bst cmp (root (Clear t))" by (rule b[OF tree_inv_Clear[OF inv]])
  have 6: "\<forall>e\<in>set (inorder (root t)). Get z t e = Some (e, True)"
    using find_list_self[OF tot, of "inorder (root t)" _ z] ord by (simp add: get ordered_def)
  have 7: "(\<exists>e\<in>set (inorder (root t)). cmp x e = 0) \<longrightarrow>
      (\<exists>e\<in>set (inorder (root t)). cmp x e = 0 \<and> Get z t x = Some (e, True))"
    using find_list_found[of "inorder (root t)" cmp x z] by (auto simp: get)
  have 8: "(\<forall>e\<in>set (inorder (root t)). cmp x e \<noteq> 0) \<longrightarrow> Get z t x = Some (z, False)"
    using find_list_absent[of "inorder (root t)" cmp x z] by (simp add: get)
  from b[OF inv] 1 2 3 4 5 6 7 8 show ?thesis by blast
qed

theorem operations_preserve_bst_witness:
  "tree_inv int_compare tree_2143 \<and> bst int_compare (root tree_2143) \<and>
   Get 0 tree_2143 3 = Some (3, True) \<and> Get 0 tree_2143 7 = Some (0, False) \<and>
   (\<exists>t' deleted ok. Delete 0 tree_2143 2 = Some (t', deleted, ok) \<and> bst int_compare (root t'))"
proof -
  note inst = operations_preserve_bst[OF tree_inv_tree_2143, of 0 2]
  have "Get 0 tree_2143 3 = Some (3, True)" "Get 0 tree_2143 7 = Some (0, False)"
    by (simp_all add: tree_2143_def Get_def int_compare_def)
  with inst tree_inv_tree_2143 show ?thesis by blast
qed

end
